theory Spec2Isabelle
  imports Main
begin

section \<open>Python values, strings and dictionaries\<close>

text \<open>
  The exceptions that \<^verbatim>\<open>starlette/routing.py\<close> raises, or lets escape.
  \<open>ReError\<close> is \<^verbatim>\<open>re.error\<close>, \<open>HTTPException\<close> carries its status code.
\<close>

datatype exn =
    NoMatchFound
  | AssertionError
  | KeyError
  | AttributeError
  | ReError
  | TypeError
  | HTTPException nat

text \<open>
  A value held in \<^verbatim>\<open>path_params\<close>: a Python \<^verbatim>\<open>str\<close>, or an object of another class (what
  the convertor of a placeholder may decode a capture into), given by its \<^verbatim>\<open>str()\<close>.
\<close>

datatype pyval = PyStr string | PyObj string

text \<open>
  A Python \<^verbatim>\<open>dict\<close> keeps insertion order, and \<^verbatim>\<open>replace_params\<close> iterates over
  one: it is an association list with distinct keys. Assigning to a key that is present
  keeps its position, a new key goes last.
\<close>

type_synonym ('k, 'v) dict = "('k \<times> 'v) list"

definition dict_get :: "('k, 'v) dict \<Rightarrow> 'k \<Rightarrow> 'v option" where
  "dict_get d k = map_of d k"

fun dict_set :: "('k, 'v) dict \<Rightarrow> 'k \<Rightarrow> 'v \<Rightarrow> ('k, 'v) dict" where
  "dict_set [] k v = [(k, v)]"
| "dict_set ((k', v') # d) k v = (if k' = k then (k, v) # d else (k', v') # dict_set d k v)"

fun dict_update :: "('k, 'v) dict \<Rightarrow> ('k, 'v) dict \<Rightarrow> ('k, 'v) dict" where
  "dict_update d [] = d"
| "dict_update d ((k, v) # e) = dict_update (dict_set d k v) e"

definition dict_pop :: "('k, 'v) dict \<Rightarrow> 'k \<Rightarrow> ('k, 'v) dict" where
  "dict_pop d k = filter (\<lambda>kv. fst kv \<noteq> k) d"

definition dict_keys :: "('k, 'v) dict \<Rightarrow> 'k list" where
  "dict_keys d = map fst d"

text \<open>\<^verbatim>\<open>s.startswith(p)\<close>, \<^verbatim>\<open>s.endswith(p)\<close>, \<^verbatim>\<open>s.rstrip(c)\<close>, \<^verbatim>\<open>s.lstrip(c)\<close>.\<close>

definition startswith :: "string \<Rightarrow> string \<Rightarrow> bool" where
  "startswith s p = (take (length p) s = p)"

definition endswith :: "string \<Rightarrow> string \<Rightarrow> bool" where
  "endswith s p = (length p \<le> length s \<and> drop (length s - length p) s = p)"

definition lstrip :: "char \<Rightarrow> string \<Rightarrow> string" where
  "lstrip c s = dropWhile (\<lambda>x. x = c) s"

definition rstrip :: "char \<Rightarrow> string \<Rightarrow> string" where
  "rstrip c s = rev (dropWhile (\<lambda>x. x = c) (rev s))"

text \<open>\<^verbatim>\<open>old in s\<close>: \<open>old\<close> occurs in \<open>s\<close> as a contiguous substring.\<close>

fun contains :: "string \<Rightarrow> string \<Rightarrow> bool" where
  "contains old [] = (old = [])"
| "contains old (c # cs) = (startswith (c # cs) old \<or> contains old cs)"

text \<open>
  \<^verbatim>\<open>s.replace(old, new)\<close>: every occurrence of \<open>old\<close>, scanning from the left, the scan
  going on after an occurrence it has replaced. For the empty \<open>old\<close> Python puts \<open>new\<close>
  before every character and at the end.
\<close>

function replace_scan :: "string \<Rightarrow> string \<Rightarrow> string \<Rightarrow> string" where
  "replace_scan old new [] = []"
| "replace_scan old new (c # cs) =
     (if old \<noteq> [] \<and> startswith (c # cs) old
      then new @ replace_scan old new (drop (length old) (c # cs))
      else c # replace_scan old new cs)"
  by pat_completeness auto
termination
  by (relation "measure (\<lambda>(old, new, s). length s)") auto

definition replace :: "string \<Rightarrow> string \<Rightarrow> string \<Rightarrow> string" where
  "replace old new s =
     (if old = [] then new @ concat (map (\<lambda>c. c # new) s) else replace_scan old new s)"

section \<open>Convertors and \<^verbatim>\<open>compile_path\<close>\<close>

text \<open>
  Modelled from the spec: \<^verbatim>\<open>starlette.convertors\<close> (\<^verbatim>\<open>Convertor\<close>, \<^verbatim>\<open>CONVERTOR_TYPES\<close>) is
  not part of the sources. A convertor has a matching-pattern fragment, \<^verbatim>\<open>convert\<close> from
  the captured string to a value and \<^verbatim>\<open>to_string\<close> back (spec 4.2). The fragment is a
  greedy repetition of one character class, at least \<open>regex_least\<close> times: \<^verbatim>\<open>[^/]+\<close> of the
  \<^verbatim>\<open>compile_path\<close> docstring is the class of all characters but \<^verbatim>\<open>/\<close>, at least once.
  The table \<^verbatim>\<open>CONVERTOR_TYPES\<close> is an argument \<open>tbl\<close> of \<open>compile_path\<close> and of the
  constructors.
\<close>

record Convertor =
  regex_class :: "char \<Rightarrow> bool"
  regex_least :: nat
  convert :: "string \<Rightarrow> pyval"
  to_string :: "pyval \<Rightarrow> string"

text \<open>
  Modelled from the spec: the two convertors the spec describes by their behaviour,
  \<^verbatim>\<open>str\<close> (a non-empty run without \<^verbatim>\<open>/\<close>) and \<^verbatim>\<open>path\<close> ("accepts any remaining characters
  including \<^verbatim>\<open>/\<close>"), both the identity on strings. Of the other convertors of the default
  set (integer, float, UUID) the spec gives the names and the contract of section 4.2
  only. The theorems below are about any table; \<open>str_path_table\<close> is the table of the
  examples, with these two convertors and no other.
\<close>

definition py_str :: "pyval \<Rightarrow> string" where
  "py_str v = (case v of PyStr s \<Rightarrow> s | PyObj s \<Rightarrow> s)"

definition StringConvertor :: "Convertor" where
  "StringConvertor =
     \<lparr>regex_class = (\<lambda>c. c \<noteq> CHR ''/''), regex_least = 1, convert = PyStr, to_string = py_str\<rparr>"

definition PathConvertor :: "Convertor" where
  "PathConvertor =
     \<lparr>regex_class = (\<lambda>c. True), regex_least = 0, convert = PyStr, to_string = py_str\<rparr>"

definition str_path_table :: "string \<Rightarrow> Convertor option" where
  "str_path_table t =
     (if t = ''str'' then Some StringConvertor
      else if t = ''path'' then Some PathConvertor
      else None)"

text \<open>
  \<^verbatim>\<open>PARAM_REGEX = "{([a-zA-Z_][a-zA-Z0-9_]*)(:[a-zA-Z_][a-zA-Z0-9_]*)?}"\<close>.
  \<open>take_ident\<close> is the greedy identifier at the head of a string; \<open>PARAM_REGEX_match\<close>
  is a match of the whole regex at the head: its two groups (the second with its colon,
  \<open>None\<close> when it did not take part) and the text after the match. The regex has one way
  to match at a position: a shorter identifier is followed by an identifier character,
  never by \<^verbatim>\<open>:\<close> or \<^verbatim>\<open>}\<close>.
\<close>

definition ident_start :: "char \<Rightarrow> bool" where
  "ident_start c = (c \<in> set ''abcdefghijklmnopqrstuvwxyzABCDEFGHIJKLMNOPQRSTUVWXYZ_'')"

definition ident_char :: "char \<Rightarrow> bool" where
  "ident_char c = (ident_start c \<or> c \<in> set ''0123456789'')"

definition take_ident :: "string \<Rightarrow> (string \<times> string) option" where
  "take_ident s =
     (case s of
        [] \<Rightarrow> None
      | c # cs \<Rightarrow>
          if ident_start c then Some (c # takeWhile ident_char cs, dropWhile ident_char cs)
          else None)"

definition PARAM_REGEX_match :: "string \<Rightarrow> ((string \<times> string option) \<times> string) option" where
  "PARAM_REGEX_match s =
     (case s of
        [] \<Rightarrow> None
      | c # r \<Rightarrow>
          if c \<noteq> CHR ''{'' then None
          else (case take_ident r of
                  None \<Rightarrow> None
                | Some (param_name, r1) \<Rightarrow>
                    (case r1 of
                       [] \<Rightarrow> None
                     | d # r2 \<Rightarrow>
                         if d = CHR ''}'' then Some ((param_name, None), r2)
                         else if d = CHR '':'' then
                           (case take_ident r2 of
                              None \<Rightarrow> None
                            | Some (ty, r3) \<Rightarrow>
                                (case r3 of
                                   [] \<Rightarrow> None
                                 | e # r4 \<Rightarrow>
                                     if e = CHR ''}'' then Some ((param_name, Some (CHR '':'' # ty)), r4)
                                     else None))
                         else None)))"

lemma take_ident_shorter: "take_ident s = Some (x, r) \<Longrightarrow> length r < length s"
  by (auto simp: take_ident_def split: list.splits if_splits
      intro: le_imp_less_Suc length_dropWhile_le)

lemma PARAM_REGEX_match_shorter: "PARAM_REGEX_match s = Some (g, r) \<Longrightarrow> length r < length s"
  by (auto simp: PARAM_REGEX_match_def split: list.splits if_splits option.splits
      dest!: take_ident_shorter)

text \<open>
  \<^verbatim>\<open>PARAM_REGEX.finditer(path)\<close>: the matches from left to right, none overlapping. Each
  comes with the text between the end of the match before it and its start
  (\<^verbatim>\<open>path[idx : match.start()]\<close>); the text after the last match (\<^verbatim>\<open>path[idx:]\<close>) is
  returned beside them. \<open>lit\<close> holds, reversed, the characters passed since the last match.
\<close>

function finditer :: "string \<Rightarrow> string \<Rightarrow> (string \<times> string \<times> string option) list \<times> string" where
  "finditer lit [] = ([], rev lit)"
| "finditer lit (c # cs) =
     (case PARAM_REGEX_match (c # cs) of
        Some ((param_name, ty), rest) \<Rightarrow>
          (case finditer [] rest of (ms, last_lit) \<Rightarrow> ((rev lit, param_name, ty) # ms, last_lit))
      | None \<Rightarrow> finditer (c # lit) cs)"
  by pat_completeness auto
termination
  by (relation "measure (\<lambda>(lit, s). length s)") (auto dest: PARAM_REGEX_match_shorter)

text \<open>
  The compiled regex \<^verbatim>\<open>"^" + literal + "(?P<name>fragment)" + ... + literal + "$"\<close> is kept
  as its parts, in order. \<open>Lit\<close> is literal text of the template: \<^verbatim>\<open>compile_path\<close> puts it
  into the regex as it is, so that a character of \<open>regex_special\<close> in it keeps the meaning
  it has for \<^verbatim>\<open>re\<close>. The literal text of a template is \<open>plain\<close> when it has no such
  character.
\<close>

datatype seg = Lit string | Group string "Convertor"

definition regex_special :: "char \<Rightarrow> bool" where
  "regex_special c = (c \<in> set [CHR ''.'', CHR ''^'', CHR ''$'', CHR ''*'', CHR ''+'', CHR ''?'',
     CHR ''{'', CHR ''}'', CHR ''['', CHR '']'', CHR 0x5C, CHR ''|'', CHR ''('', CHR '')''])"

fun plain :: "seg list \<Rightarrow> bool" where
  "plain [] = True"
| "plain (Lit l # segs) = ((\<forall>c \<in> set l. \<not> regex_special c) \<and> plain segs)"
| "plain (Group n cv # segs) = plain segs"

fun group_names :: "seg list \<Rightarrow> string list" where
  "group_names [] = []"
| "group_names (Lit l # segs) = group_names segs"
| "group_names (Group n cv # segs) = n # group_names segs"

text \<open>
  The loop of \<^verbatim>\<open>compile_path\<close> over the matches, with its three accumulators; the
  \<^verbatim>\<open>assert\<close> on an unknown convertor type is the \<open>AssertionError\<close>.
\<close>

fun compile_loop ::
  "(string \<Rightarrow> Convertor option) \<Rightarrow> (string \<times> string \<times> string option) list \<Rightarrow>
   seg list \<Rightarrow> string \<Rightarrow> (string, Convertor) dict \<Rightarrow>
   exn + (seg list \<times> string \<times> (string, Convertor) dict)" where
  "compile_loop tbl [] path_regex path_format param_convertors =
     Inr (path_regex, path_format, param_convertors)"
| "compile_loop tbl ((lit, param_name, ty) # ms) path_regex path_format param_convertors =
     (let convertor_type = (case ty of None \<Rightarrow> ''str'' | Some t \<Rightarrow> lstrip CHR '':'' t) in
      case tbl convertor_type of
        None \<Rightarrow> Inl AssertionError
      | Some convertor \<Rightarrow>
          compile_loop tbl ms
            (path_regex @ [Lit lit, Group param_name convertor])
            (path_format @ lit @ ''{'' @ param_name @ ''}'')
            (dict_set param_convertors param_name convertor))"

text \<open>
  \<^verbatim>\<open>compile_path\<close>. \<^verbatim>\<open>re.compile\<close> refuses a pattern that names two groups alike
  (\<^verbatim>\<open>re.error\<close>), which is the only way it fails on plain literal text.
\<close>

definition compile_path ::
  "(string \<Rightarrow> Convertor option) \<Rightarrow> string \<Rightarrow>
   exn + (seg list \<times> string \<times> (string, Convertor) dict)" where
  "compile_path tbl path =
     (case finditer [] path of
        (ms, last_lit) \<Rightarrow>
          (case compile_loop tbl ms [] [] [] of
             Inl e \<Rightarrow> Inl e
           | Inr (path_regex, path_format, param_convertors) \<Rightarrow>
               if distinct (group_names path_regex)
               then Inr (path_regex @ [Lit last_lit], path_format @ last_lit, param_convertors)
               else Inl ReError))"

text \<open>
  Python's \<^verbatim>\<open>re\<close> is not part of the sources. What a compiled regex matches is an
  argument \<open>re\<close> of the functions that match: \<open>re rx s\<close> is \<^verbatim>\<open>rx.match(s)\<close>, \<open>None\<close> when
  the regex does not match, else the \<^verbatim>\<open>groupdict()\<close> of the match.
\<close>

type_synonym regex_engine = "seg list \<Rightarrow> string \<Rightarrow> (string, string) dict option"

text \<open>
  \<open>regex_match\<close> is \<^verbatim>\<open>re\<close> on the regexes whose literal text has no special character
  but the dot: there a character of the text matches itself, and the dot any character
  but a newline (\<open>lit_matches\<close>). The result has the captures by group name, in the order
  of the groups. A group is greedy: it first takes every character of its class there
  is, and gives characters back one by one (never going below \<open>regex_least\<close>) while
  the rest of the regex does not match. The final \<^verbatim>\<open>$\<close> matches at the end of the string
  and also just before a newline that ends it.
\<close>

fun lit_matches :: "string \<Rightarrow> string \<Rightarrow> bool" where
  "lit_matches [] s = True"
| "lit_matches (p # ps) [] = False"
| "lit_matches (p # ps) (c # cs) =
     ((if p = CHR ''.'' then c \<noteq> CHR 0x0A else p = c) \<and> lit_matches ps cs)"

fun try_down :: "(nat \<Rightarrow> 'b option) \<Rightarrow> nat \<Rightarrow> nat \<Rightarrow> 'b option" where
  "try_down f lo 0 = (if lo = 0 then f 0 else None)"
| "try_down f lo (Suc k) =
     (if Suc k < lo then None
      else (case f (Suc k) of Some r \<Rightarrow> Some r | None \<Rightarrow> try_down f lo k))"

fun regex_match :: "regex_engine" where
  "regex_match [] s = (if s = [] \<or> s = [CHR 0x0A] then Some [] else None)"
| "regex_match (Lit l # segs) s =
     (if lit_matches l s then regex_match segs (drop (length l) s) else None)"
| "regex_match (Group n cv # segs) s =
     try_down
       (\<lambda>k. case regex_match segs (drop k s) of
              None \<Rightarrow> None
            | Some groups \<Rightarrow> Some ((n, take k s) # groups))
       (regex_least cv)
       (length (takeWhile (regex_class cv) s))"

section \<open>The data model: endpoints, routes, routers, scopes\<close>

text \<open>
  An endpoint is a Python callable. The constructors ask \<^verbatim>\<open>inspect\<close> what it is, and
  \<open>get_name\<close> reads \<^verbatim>\<open>__name__\<close> or the name of its class.
\<close>

datatype callable_kind = IsFunction | IsMethod | IsClass | IsInstance

record callable =
  callable_kind :: callable_kind
  callable_name :: string
  callable_class_name :: string

definition get_name :: "callable \<Rightarrow> string" where
  "get_name endpoint =
     (if callable_kind endpoint = IsFunction \<or> callable_kind endpoint = IsClass
      then callable_name endpoint
      else callable_class_name endpoint)"

text \<open>
  The ASGI application a leaf route calls: \<^verbatim>\<open>request_response(endpoint)\<close>,
  \<^verbatim>\<open>websocket_session(endpoint)\<close> or the endpoint itself (a class, treated as ASGI).
\<close>

datatype leaf_app = request_response callable | websocket_session callable | asgi_endpoint callable

record Route =
  route_path :: string
  route_endpoint :: callable
  route_name :: string
  route_include_in_schema :: bool
  route_app :: leaf_app
  route_methods :: "string set option"
  route_path_regex :: "seg list"
  route_path_format :: string
  route_param_convertors :: "(string, Convertor) dict"

record WebSocketRoute =
  ws_path :: string
  ws_endpoint :: callable
  ws_name :: string
  ws_app :: leaf_app
  ws_path_regex :: "seg list"
  ws_path_format :: string
  ws_param_convertors :: "(string, Convertor) dict"

text \<open>
  A startup or shutdown handler is a callable without arguments;
  \<open>handler_is_coroutine\<close> is \<^verbatim>\<open>asyncio.iscoroutinefunction(handler)\<close>.
\<close>

record handler =
  handler_name :: string
  handler_is_coroutine :: bool

record Lifespan =
  startup_handlers :: "handler list"
  shutdown_handlers :: "handler list"

text \<open>
  The nodes of a routing tree, and the ASGI applications a \<^verbatim>\<open>Mount\<close> or \<^verbatim>\<open>Host\<close> wraps: a
  \<^verbatim>\<open>Router\<close> of this module (\<open>router_default = None\<close> is \<^verbatim>\<open>self.not_found\<close>), or any other
  application, named, with its \<^verbatim>\<open>routes\<close> attribute if it has one. (A \<^verbatim>\<open>Router\<close> keeps its
  \<^verbatim>\<open>Lifespan\<close> node beside the list of routes, not in it.)
\<close>

datatype BaseRoute =
    RouteNode "Route"
  | WebSocketRouteNode "WebSocketRoute"
  | Mount (mount_path: string) (mount_app: "ASGIApp") (mount_name: "string option")
      (mount_path_regex: "seg list") (mount_path_format: string)
      (mount_param_convertors: "(string, Convertor) dict")
  | Host (host_host: string) (host_app: "ASGIApp") (host_name: "string option")
      (host_regex: "seg list") (host_format: string)
      (host_param_convertors: "(string, Convertor) dict")
and ASGIApp =
    Router (routes: "BaseRoute list") (redirect_slashes: bool)
      (router_default: "ASGIApp option") (lifespan: Lifespan)
  | OtherApp string "BaseRoute list option"

text \<open>
  The scope of a request: the keys this module reads or writes. A key that may be
  absent is an option; \<open>scope_has_app\<close> is \<^verbatim>\<open>"app" in scope\<close>. Header names are in lower
  case, as ASGI has them.
\<close>

record Scope =
  scope_type :: string
  scope_path :: string
  scope_method :: string
  scope_headers :: "(string \<times> string) list"
  scope_path_params :: "(string, pyval) dict option"
  scope_root_path :: "string option"
  scope_app_root_path :: "string option"
  scope_endpoint :: "(callable + ASGIApp) option"
  scope_router :: "ASGIApp option"
  scope_has_app :: bool

text \<open>
  The child scope a node's \<^verbatim>\<open>matches\<close> returns is a dictionary with some of these keys
  (\<open>None\<close>: the key is not in it), and \<^verbatim>\<open>scope.update(child_scope)\<close> writes those.
\<close>

record child_scope =
  child_endpoint :: "(callable + ASGIApp) option"
  child_path_params :: "(string, pyval) dict option"
  child_app_root_path :: "string option"
  child_root_path :: "string option"
  child_path :: "string option"

definition empty_child :: "child_scope" where
  "empty_child = \<lparr>child_endpoint = None, child_path_params = None, child_app_root_path = None,
     child_root_path = None, child_path = None\<rparr>"

definition scope_update :: "Scope \<Rightarrow> child_scope \<Rightarrow> Scope" where
  "scope_update scope c =
     scope\<lparr>
       scope_endpoint := (case child_endpoint c of None \<Rightarrow> scope_endpoint scope | Some e \<Rightarrow> Some e),
       scope_path_params :=
         (case child_path_params c of None \<Rightarrow> scope_path_params scope | Some p \<Rightarrow> Some p),
       scope_app_root_path :=
         (case child_app_root_path c of None \<Rightarrow> scope_app_root_path scope | Some p \<Rightarrow> Some p),
       scope_root_path :=
         (case child_root_path c of None \<Rightarrow> scope_root_path scope | Some p \<Rightarrow> Some p),
       scope_path := (case child_path c of None \<Rightarrow> scope_path scope | Some p \<Rightarrow> p)\<rparr>"

datatype Match = NONE | PARTIAL | FULL

text \<open>
  Modelled from the spec: \<^verbatim>\<open>URLPath\<close> (\<^verbatim>\<open>starlette.datastructures\<close>) is not part of the
  sources: "a concrete path tagged with this node's protocol kind", with a host for host
  nodes; \<^verbatim>\<open>str(url)\<close> is the path, and a field left out is the empty string.
\<close>

record URLPath =
  url_path :: string
  url_protocol :: string
  url_host :: string

section \<open>Construction\<close>

definition upper_char :: "char \<Rightarrow> char" where
  "upper_char c =
     (case map_of (zip ''abcdefghijklmnopqrstuvwxyz'' ''ABCDEFGHIJKLMNOPQRSTUVWXYZ'') c of
        None \<Rightarrow> c
      | Some u \<Rightarrow> u)"

definition upper :: "string \<Rightarrow> string" where
  "upper s = map upper_char s"

text \<open>\<^verbatim>\<open>Route.__init__\<close>; \<open>methods\<close> and \<open>name\<close> are \<open>None\<close> when not supplied.\<close>

definition Route_init ::
  "(string \<Rightarrow> Convertor option) \<Rightarrow> string \<Rightarrow> callable \<Rightarrow> string list option \<Rightarrow>
   string option \<Rightarrow> bool \<Rightarrow> exn + Route" where
  "Route_init tbl path endpoint methods name include_in_schema =
     (if \<not> startswith path ''/'' then Inl AssertionError
      else
        let is_func = (callable_kind endpoint = IsFunction \<or> callable_kind endpoint = IsMethod);
            app = (if is_func then request_response endpoint else asgi_endpoint endpoint);
            methods1 = (if is_func \<and> methods = None then Some [''GET''] else methods);
            self_methods =
              (case methods1 of
                 None \<Rightarrow> None
               | Some ms \<Rightarrow>
                   (let s = set (map upper ms)
                    in Some (if ''GET'' \<in> s then insert ''HEAD'' s else s)))
        in case compile_path tbl path of
             Inl e \<Rightarrow> Inl e
           | Inr (path_regex, path_format, param_convertors) \<Rightarrow>
               Inr \<lparr>route_path = path, route_endpoint = endpoint,
                    route_name = (case name of None \<Rightarrow> get_name endpoint | Some n \<Rightarrow> n),
                    route_include_in_schema = include_in_schema, route_app = app,
                    route_methods = self_methods, route_path_regex = path_regex,
                    route_path_format = path_format,
                    route_param_convertors = param_convertors\<rparr>)"

text \<open>\<^verbatim>\<open>WebSocketRoute.__init__\<close>.\<close>

definition WebSocketRoute_init ::
  "(string \<Rightarrow> Convertor option) \<Rightarrow> string \<Rightarrow> callable \<Rightarrow> string option \<Rightarrow>
   exn + WebSocketRoute" where
  "WebSocketRoute_init tbl path endpoint name =
     (if \<not> startswith path ''/'' then Inl AssertionError
      else
        let is_func = (callable_kind endpoint = IsFunction \<or> callable_kind endpoint = IsMethod);
            app = (if is_func then websocket_session endpoint else asgi_endpoint endpoint)
        in case compile_path tbl path of
             Inl e \<Rightarrow> Inl e
           | Inr (path_regex, path_format, param_convertors) \<Rightarrow>
               Inr \<lparr>ws_path = path, ws_endpoint = endpoint,
                    ws_name = (case name of None \<Rightarrow> get_name endpoint | Some n \<Rightarrow> n),
                    ws_app = app, ws_path_regex = path_regex, ws_path_format = path_format,
                    ws_param_convertors = param_convertors\<rparr>)"

text \<open>
  \<^verbatim>\<open>Router.__init__\<close> (the handlers go to the router's \<^verbatim>\<open>Lifespan\<close> node), and
  \<^verbatim>\<open>Mount.__init__\<close>, which wraps \<^verbatim>\<open>Router(routes=routes)\<close> when it is given no \<open>app\<close>.
\<close>

definition Router_init ::
  "BaseRoute list option \<Rightarrow> bool \<Rightarrow> ASGIApp option \<Rightarrow> handler list \<Rightarrow> handler list \<Rightarrow>
   ASGIApp" where
  "Router_init rs redirect dflt on_startup on_shutdown =
     Router (case rs of None \<Rightarrow> [] | Some l \<Rightarrow> l) redirect dflt
       \<lparr>startup_handlers = on_startup, shutdown_handlers = on_shutdown\<rparr>"

definition Mount_init ::
  "(string \<Rightarrow> Convertor option) \<Rightarrow> string \<Rightarrow> ASGIApp option \<Rightarrow> BaseRoute list option \<Rightarrow>
   string option \<Rightarrow> exn + BaseRoute" where
  "Mount_init tbl path app rs name =
     (if \<not> (path = [] \<or> startswith path ''/'') then Inl AssertionError
      else if app = None \<and> rs = None then Inl AssertionError
      else
        let self_path = rstrip CHR ''/'' path;
            self_app = (case app of Some a \<Rightarrow> a | None \<Rightarrow> Router_init rs True None [] [])
        in case compile_path tbl (self_path @ ''/{path:path}'') of
             Inl e \<Rightarrow> Inl e
           | Inr (path_regex, path_format, param_convertors) \<Rightarrow>
               Inr (Mount self_path self_app name path_regex path_format param_convertors))"

text \<open>\<^verbatim>\<open>Host.__init__\<close>.\<close>

definition Host_init ::
  "(string \<Rightarrow> Convertor option) \<Rightarrow> string \<Rightarrow> ASGIApp \<Rightarrow> string option \<Rightarrow>
   exn + BaseRoute" where
  "Host_init tbl host app name =
     (case compile_path tbl host of
        Inl e \<Rightarrow> Inl e
      | Inr (rx, fmt, cvs) \<Rightarrow> Inr (Host host app name rx fmt cvs))"

text \<open>The \<^verbatim>\<open>routes\<close> property of \<^verbatim>\<open>Mount\<close> and \<^verbatim>\<open>Host\<close>: \<^verbatim>\<open>getattr(self.app, "routes", None)\<close>.\<close>

definition app_routes :: "ASGIApp \<Rightarrow> BaseRoute list option" where
  "app_routes app = (case app of Router rs red dflt ls \<Rightarrow> Some rs | OtherApp n ro \<Rightarrow> ro)"

section \<open>Matching\<close>

text \<open>
  The loop \<^verbatim>\<open>matched_params[key] = self.param_convertors[key].convert(value)\<close> over the
  captures; a name without a convertor is Python's \<open>KeyError\<close>.
\<close>

fun convert_params ::
  "(string, Convertor) dict \<Rightarrow> (string, string) dict \<Rightarrow> exn + (string, pyval) dict" where
  "convert_params cvs [] = Inr []"
| "convert_params cvs ((key, v) # rest) =
     (case dict_get cvs key of
        None \<Rightarrow> Inl KeyError
      | Some cv \<Rightarrow>
          (case convert_params cvs rest of
             Inl e \<Rightarrow> Inl e
           | Inr d \<Rightarrow> Inr ((key, convert cv v) # d)))"

definition get_path_params :: "Scope \<Rightarrow> (string, pyval) dict" where
  "get_path_params scope = (case scope_path_params scope of None \<Rightarrow> [] | Some d \<Rightarrow> d)"

text \<open>
  \<^verbatim>\<open>self.methods and scope["method"] not in self.methods\<close>: a route without a set of
  methods, or with the empty set, rejects no method.
\<close>

definition method_rejected :: "string set option \<Rightarrow> string \<Rightarrow> bool" where
  "method_rejected ms m = (case ms of None \<Rightarrow> False | Some s \<Rightarrow> s \<noteq> {} \<and> m \<notin> s)"

definition Route_matches :: "regex_engine \<Rightarrow> Route \<Rightarrow> Scope \<Rightarrow> exn + (Match \<times> child_scope)" where
  "Route_matches re r scope =
     (if scope_type scope = ''http'' then
        (case re (route_path_regex r) (scope_path scope) of
           None \<Rightarrow> Inr (NONE, empty_child)
         | Some groups \<Rightarrow>
             (case convert_params (route_param_convertors r) groups of
                Inl e \<Rightarrow> Inl e
              | Inr matched_params \<Rightarrow>
                  (let path_params = dict_update (get_path_params scope) matched_params;
                       child = empty_child\<lparr>child_endpoint := Some (Inl (route_endpoint r)),
                                 child_path_params := Some path_params\<rparr>
                   in if method_rejected (route_methods r) (scope_method scope)
                      then Inr (PARTIAL, child)
                      else Inr (FULL, child))))
      else Inr (NONE, empty_child))"

definition WebSocketRoute_matches ::
  "regex_engine \<Rightarrow> WebSocketRoute \<Rightarrow> Scope \<Rightarrow> exn + (Match \<times> child_scope)" where
  "WebSocketRoute_matches re r scope =
     (if scope_type scope = ''websocket'' then
        (case re (ws_path_regex r) (scope_path scope) of
           None \<Rightarrow> Inr (NONE, empty_child)
         | Some groups \<Rightarrow>
             (case convert_params (ws_param_convertors r) groups of
                Inl e \<Rightarrow> Inl e
              | Inr matched_params \<Rightarrow>
                  (let path_params = dict_update (get_path_params scope) matched_params;
                       child = empty_child\<lparr>child_endpoint := Some (Inl (ws_endpoint r)),
                                 child_path_params := Some path_params\<rparr>
                   in Inr (FULL, child))))
      else Inr (NONE, empty_child))"

text \<open>
  \<^verbatim>\<open>Mount.matches\<close>. \<^verbatim>\<open>"/" + matched_params.pop("path")\<close> raises \<open>KeyError\<close> without the
  key and \<open>TypeError\<close> on a value that is no \<^verbatim>\<open>str\<close>;
  \<^verbatim>\<open>path[: -len(remaining_path)]\<close> drops that many characters from the end.
\<close>

definition Mount_matches ::
  "regex_engine \<Rightarrow> ASGIApp \<Rightarrow> seg list \<Rightarrow> (string, Convertor) dict \<Rightarrow> Scope \<Rightarrow>
   exn + (Match \<times> child_scope)" where
  "Mount_matches re app path_regex param_convertors scope =
     (if scope_type scope = ''http'' \<or> scope_type scope = ''websocket'' then
        (let path = scope_path scope in
         case re path_regex path of
           None \<Rightarrow> Inr (NONE, empty_child)
         | Some groups \<Rightarrow>
             (case convert_params param_convertors groups of
                Inl e \<Rightarrow> Inl e
              | Inr matched_params \<Rightarrow>
                  (case dict_get matched_params ''path'' of
                     None \<Rightarrow> Inl KeyError
                   | Some (PyObj x) \<Rightarrow> Inl TypeError
                   | Some (PyStr rest) \<Rightarrow>
                       (let remaining_path = ''/'' @ rest;
                            matched_path = take (length path - length remaining_path) path;
                            path_params =
                              dict_update (get_path_params scope) (dict_pop matched_params ''path'');
                            root_path = (case scope_root_path scope of None \<Rightarrow> [] | Some p \<Rightarrow> p);
                            child =
                              \<lparr>child_endpoint = Some (Inr app),
                               child_path_params = Some path_params,
                               child_app_root_path =
                                 Some (case scope_app_root_path scope of
                                         None \<Rightarrow> root_path
                                       | Some p \<Rightarrow> p),
                               child_root_path = Some (root_path @ matched_path),
                               child_path = Some remaining_path\<rparr>
                        in Inr (FULL, child)))))
      else Inr (NONE, empty_child))"

text \<open>
  Modelled from the spec: \<^verbatim>\<open>Headers\<close> (\<^verbatim>\<open>starlette.datastructures\<close>) is not part of the
  sources. "Matching reads the \<^verbatim>\<open>Host\<close> header (port suffix stripped)":
  \<^verbatim>\<open>headers.get("host", "").split(":")[0]\<close> is the first header of that name, up to its
  first colon.
\<close>

definition request_host :: "Scope \<Rightarrow> string" where
  "request_host scope =
     takeWhile (\<lambda>c. c \<noteq> CHR '':'')
       (case map_of (scope_headers scope) ''host'' of None \<Rightarrow> [] | Some h \<Rightarrow> h)"

definition Host_matches ::
  "regex_engine \<Rightarrow> ASGIApp \<Rightarrow> seg list \<Rightarrow> (string, Convertor) dict \<Rightarrow> Scope \<Rightarrow>
   exn + (Match \<times> child_scope)" where
  "Host_matches re app rx param_convertors scope =
     (if scope_type scope = ''http'' \<or> scope_type scope = ''websocket'' then
        (case re rx (request_host scope) of
           None \<Rightarrow> Inr (NONE, empty_child)
         | Some groups \<Rightarrow>
             (case convert_params param_convertors groups of
                Inl e \<Rightarrow> Inl e
              | Inr matched_params \<Rightarrow>
                  (let path_params = dict_update (get_path_params scope) matched_params;
                       child = empty_child\<lparr>child_path_params := Some path_params,
                                 child_endpoint := Some (Inr app)\<rparr>
                   in Inr (FULL, child))))
      else Inr (NONE, empty_child))"

text \<open>\<^verbatim>\<open>route.matches(scope)\<close>, by the class of the node.\<close>

fun matches :: "regex_engine \<Rightarrow> BaseRoute \<Rightarrow> Scope \<Rightarrow> exn + (Match \<times> child_scope)" where
  "matches re (RouteNode r) scope = Route_matches re r scope"
| "matches re (WebSocketRouteNode r) scope = WebSocketRoute_matches re r scope"
| "matches re (Mount p app n rx fmt cvs) scope = Mount_matches re app rx cvs scope"
| "matches re (Host h app n rx fmt cvs) scope = Host_matches re app rx cvs scope"

section \<open>Reverse lookup\<close>

text \<open>
  \<^verbatim>\<open>replace_params\<close>: the loop runs over a copy of the items taken at its start
  (\<open>items\<close>), while \<open>path\<close> and \<open>path_params\<close> change under it.
\<close>

fun replace_loop ::
  "string \<Rightarrow> (string, Convertor) dict \<Rightarrow> (string, pyval) dict \<Rightarrow> (string, pyval) dict \<Rightarrow>
   exn + (string \<times> (string, pyval) dict)" where
  "replace_loop path param_convertors path_params [] = Inr (path, path_params)"
| "replace_loop path param_convertors path_params ((key, v) # items) =
     (if contains (''{'' @ key @ ''}'') path then
        (case dict_get param_convertors key of
           None \<Rightarrow> Inl KeyError
         | Some convertor \<Rightarrow>
             replace_loop (replace (''{'' @ key @ ''}'') (to_string convertor v) path)
               param_convertors (dict_pop path_params key) items)
      else replace_loop path param_convertors path_params items)"

definition replace_params ::
  "string \<Rightarrow> (string, Convertor) dict \<Rightarrow> (string, pyval) dict \<Rightarrow>
   exn + (string \<times> (string, pyval) dict)" where
  "replace_params path param_convertors path_params =
     replace_loop path param_convertors path_params path_params"

text \<open>\<^verbatim>\<open>Route.url_path_for\<close> and \<^verbatim>\<open>WebSocketRoute.url_path_for\<close>.\<close>

definition Route_url_path_for ::
  "Route \<Rightarrow> string \<Rightarrow> (string, pyval) dict \<Rightarrow> exn + URLPath" where
  "Route_url_path_for r name path_params =
     (let seen_params = set (dict_keys path_params);
          expected_params = set (dict_keys (route_param_convertors r))
      in if name \<noteq> route_name r \<or> seen_params \<noteq> expected_params then Inl NoMatchFound
         else (case replace_params (route_path_format r) (route_param_convertors r) path_params of
                 Inl e \<Rightarrow> Inl e
               | Inr (path, remaining_params) \<Rightarrow>
                   if remaining_params \<noteq> [] then Inl AssertionError
                   else Inr \<lparr>url_path = path, url_protocol = ''http'', url_host = []\<rparr>))"

definition WebSocketRoute_url_path_for ::
  "WebSocketRoute \<Rightarrow> string \<Rightarrow> (string, pyval) dict \<Rightarrow> exn + URLPath" where
  "WebSocketRoute_url_path_for r name path_params =
     (let seen_params = set (dict_keys path_params);
          expected_params = set (dict_keys (ws_param_convertors r))
      in if name \<noteq> ws_name r \<or> seen_params \<noteq> expected_params then Inl NoMatchFound
         else (case replace_params (ws_path_format r) (ws_param_convertors r) path_params of
                 Inl e \<Rightarrow> Inl e
               | Inr (path, remaining_params) \<Rightarrow>
                   if remaining_params \<noteq> [] then Inl AssertionError
                   else Inr \<lparr>url_path = path, url_protocol = ''websocket'', url_host = []\<rparr>))"

text \<open>
  \<^verbatim>\<open>self.routes or []\<close> of a \<^verbatim>\<open>Mount\<close> or \<^verbatim>\<open>Host\<close>, and the size argument that lets the
  reverse lookup and the dispatch recurse into it.
\<close>

definition routes_or_empty :: "ASGIApp \<Rightarrow> BaseRoute list" where
  "routes_or_empty app = (case app_routes app of None \<Rightarrow> [] | Some rs \<Rightarrow> rs)"

lemma size_routes_or_empty: "size_list size (routes_or_empty app) < size app"
  by (cases app) (auto simp: routes_or_empty_def app_routes_def split: option.splits)

text \<open>
  \<^verbatim>\<open>url_path_for\<close> of a node, by its class, and the loop
  \<^verbatim>\<open>for route in routes: try: return route.url_path_for(...) except NoMatchFound: pass\<close>
  followed by \<^verbatim>\<open>raise NoMatchFound()\<close> (\<open>url_path_for_first\<close>), which is
  \<^verbatim>\<open>Router.url_path_for\<close> and the loop inside \<^verbatim>\<open>Mount.url_path_for\<close> and
  \<^verbatim>\<open>Host.url_path_for\<close>; these two wrap the child's result. Any exception but
  \<open>NoMatchFound\<close> leaves the loop.
\<close>

function url_path_for :: "BaseRoute \<Rightarrow> string \<Rightarrow> (string, pyval) dict \<Rightarrow> exn + URLPath"
  and url_path_for_first ::
    "BaseRoute list \<Rightarrow> string \<Rightarrow> (string, pyval) dict \<Rightarrow> exn + URLPath" where
  "url_path_for (RouteNode r) name path_params = Route_url_path_for r name path_params"
| "url_path_for (WebSocketRouteNode r) name path_params =
     WebSocketRoute_url_path_for r name path_params"
| "url_path_for (Mount p app self_name rx path_format param_convertors) name path_params =
     (if self_name \<noteq> None \<and> Some name = self_name \<and> dict_get path_params ''path'' \<noteq> None then
        (case dict_get path_params ''path'' of
           Some (PyStr pth) \<Rightarrow>
             (case replace_params path_format param_convertors
                     (dict_set path_params ''path'' (PyStr (lstrip CHR ''/'' pth))) of
                Inl e \<Rightarrow> Inl e
              | Inr (path, remaining_params) \<Rightarrow>
                  if remaining_params = []
                  then Inr \<lparr>url_path = path, url_protocol = [], url_host = []\<rparr>
                  else Inl NoMatchFound)
         | _ \<Rightarrow> Inl AttributeError)
      else if self_name = None \<or> startswith name (the self_name @ '':'') then
        (let remaining_name =
               (if self_name = None then name else drop (length (the self_name) + 1) name);
             path_kwarg = dict_get path_params ''path''
         in case replace_params path_format param_convertors
                   (dict_set path_params ''path'' (PyStr [])) of
              Inl e \<Rightarrow> Inl e
            | Inr (path_prefix, remaining0) \<Rightarrow>
                (let remaining_params =
                       (case path_kwarg of
                          None \<Rightarrow> remaining0
                        | Some v \<Rightarrow> dict_set remaining0 ''path'' v)
                 in case url_path_for_first (routes_or_empty app) remaining_name remaining_params of
                      Inl e \<Rightarrow> Inl e
                    | Inr url \<Rightarrow>
                        Inr \<lparr>url_path = rstrip CHR ''/'' path_prefix @ url_path url,
                             url_protocol = url_protocol url, url_host = []\<rparr>))
      else Inl NoMatchFound)"
| "url_path_for (Host h app self_name rx fmt param_convertors) name path_params =
     (if self_name \<noteq> None \<and> Some name = self_name \<and> dict_get path_params ''path'' \<noteq> None then
        (let path = the (dict_get path_params ''path'')
         in case replace_params fmt param_convertors (dict_pop path_params ''path'') of
              Inl e \<Rightarrow> Inl e
            | Inr (host, remaining_params) \<Rightarrow>
                if remaining_params = []
                then Inr \<lparr>url_path = py_str path, url_protocol = [], url_host = host\<rparr>
                else Inl NoMatchFound)
      else if self_name = None \<or> startswith name (the self_name @ '':'') then
        (let remaining_name =
               (if self_name = None then name else drop (length (the self_name) + 1) name)
         in case replace_params fmt param_convertors path_params of
              Inl e \<Rightarrow> Inl e
            | Inr (host, remaining_params) \<Rightarrow>
                (case url_path_for_first (routes_or_empty app) remaining_name remaining_params of
                   Inl e \<Rightarrow> Inl e
                 | Inr url \<Rightarrow>
                     Inr \<lparr>url_path = url_path url, url_protocol = url_protocol url,
                          url_host = host\<rparr>))
      else Inl NoMatchFound)"
| "url_path_for_first [] name path_params = Inl NoMatchFound"
| "url_path_for_first (route # rs) name path_params =
     (case url_path_for route name path_params of
        Inr url \<Rightarrow> Inr url
      | Inl e \<Rightarrow> if e = NoMatchFound then url_path_for_first rs name path_params else Inl e)"
  by pat_completeness auto
termination
proof (relation "measure (\<lambda>x. case x of Inl (r, n, ps) \<Rightarrow> size r | Inr (rs, n, ps) \<Rightarrow> size_list size rs)")
  show "wf (measure (\<lambda>x. case x of Inl (r, n, ps) \<Rightarrow> size r | Inr (rs, n, ps) \<Rightarrow> size_list size rs))"
    by simp
qed (auto intro: less_SucI trans_less_add2 size_routes_or_empty)

definition Router_url_path_for ::
  "ASGIApp \<Rightarrow> string \<Rightarrow> (string, pyval) dict \<Rightarrow> exn + URLPath" where
  "Router_url_path_for router name path_params = url_path_for_first (routes router) name path_params"

section \<open>Dispatch\<close>

text \<open>
  Calling a node or an application ends in one of these: a call of an application
  outside this module (a leaf route's \<^verbatim>\<open>self.app\<close>, or another ASGI application, by name)
  with the scope it is given; a response sent (\<^verbatim>\<open>await response(scope, receive, send)\<close>);
  \<^verbatim>\<open>WebSocketClose\<close>; the router's \<^verbatim>\<open>Lifespan\<close> node called; or an exception.
  \<^verbatim>\<open>RedirectResponse(url=str(URL(scope=redirect_scope)))\<close> keeps the scope its URL is built
  from (\<^verbatim>\<open>URL\<close> is not part of the sources).
\<close>

datatype Response = PlainTextResponse string nat | RedirectResponse Scope

datatype Outcome =
    Awaited leaf_app Scope
  | Awaited_other string Scope
  | Responded Response Scope
  | WebSocketClose
  | Awaited_lifespan Lifespan Scope
  | Raised exn

text \<open>\<^verbatim>\<open>Route.__call__\<close> and \<^verbatim>\<open>Router.not_found\<close>.\<close>

definition Route_call :: "Route \<Rightarrow> Scope \<Rightarrow> Outcome" where
  "Route_call r scope =
     (if method_rejected (route_methods r) (scope_method scope) then
        (if scope_has_app scope then Raised (HTTPException 405)
         else Responded (PlainTextResponse ''Method Not Allowed'' 405) scope)
      else Awaited (route_app r) scope)"

definition not_found :: "Scope \<Rightarrow> Outcome" where
  "not_found scope =
     (if scope_type scope = ''websocket'' then WebSocketClose
      else if scope_has_app scope then Raised (HTTPException 404)
      else Responded (PlainTextResponse ''Not Found'' 404) scope)"

text \<open>
  The first loop of \<^verbatim>\<open>Router.__call__\<close>: it stops at the first node whose match is
  \<open>FULL\<close>, and remembers in \<open>partial\<close> the first node whose match is \<open>PARTIAL\<close>.
\<close>

datatype scan = Full BaseRoute child_scope | NoFull "(BaseRoute \<times> child_scope) option"

fun Router_scan ::
  "regex_engine \<Rightarrow> BaseRoute list \<Rightarrow> Scope \<Rightarrow> (BaseRoute \<times> child_scope) option \<Rightarrow> exn + scan" where
  "Router_scan re [] scope partial = Inr (NoFull partial)"
| "Router_scan re (route # rs) scope partial =
     (case matches re route scope of
        Inl e \<Rightarrow> Inl e
      | Inr (m, child) \<Rightarrow>
          if m = FULL then Inr (Full route child)
          else if m = PARTIAL \<and> partial = None then Router_scan re rs scope (Some (route, child))
          else Router_scan re rs scope partial)"

text \<open>
  The redirect of \<^verbatim>\<open>Router.__call__\<close>: \<open>redirect_path\<close>, and the second loop, which only
  asks whether some node matches the scope with that path.
\<close>

definition redirect_path :: "Scope \<Rightarrow> string" where
  "redirect_path scope =
     (if endswith (scope_path scope) ''/'' then rstrip CHR ''/'' (scope_path scope)
      else scope_path scope @ ''/'')"

fun Router_any_match :: "regex_engine \<Rightarrow> BaseRoute list \<Rightarrow> Scope \<Rightarrow> exn + bool" where
  "Router_any_match re [] redirect_scope = Inr False"
| "Router_any_match re (route # rs) redirect_scope =
     (case matches re route redirect_scope of
        Inl e \<Rightarrow> Inl e
      | Inr (m, child) \<Rightarrow> if m \<noteq> NONE then Inr True else Router_any_match re rs redirect_scope)"

lemma Router_scan_Full_mem:
  "Router_scan re rs scope partial = Inr (Full route child) \<Longrightarrow> route \<in> set rs"
  by (induction rs arbitrary: partial) (fastforce split: sum.splits if_splits prod.splits)+

lemma Router_scan_NoFull_mem:
  "Router_scan re rs scope partial = Inr (NoFull (Some (route, child))) \<Longrightarrow>
   partial = Some (route, child) \<or> route \<in> set rs"
  by (induction rs arbitrary: partial) (fastforce split: sum.splits if_splits prod.splits)+

lemma size_mem_routes: "route \<in> set rs \<Longrightarrow> size route < Suc (size_list size rs + n)"
  by (induction rs) auto

text \<open>\<^verbatim>\<open>if "router" not in scope: scope["router"] = self\<close>.\<close>

definition with_router :: "ASGIApp \<Rightarrow> Scope \<Rightarrow> Scope" where
  "with_router self scope =
     (if scope_router scope = None then scope\<lparr>scope_router := Some self\<rparr> else scope)"

text \<open>
  \<^verbatim>\<open>await route(scope, receive, send)\<close> by the class of the node (\<open>BaseRoute_call\<close>), and
  the call of an application (\<open>ASGI_call\<close>): \<^verbatim>\<open>Router.__call__\<close> for a router.
\<close>

function BaseRoute_call :: "regex_engine \<Rightarrow> BaseRoute \<Rightarrow> Scope \<Rightarrow> Outcome"
  and ASGI_call :: "regex_engine \<Rightarrow> ASGIApp \<Rightarrow> Scope \<Rightarrow> Outcome" where
  "BaseRoute_call re (RouteNode r) scope = Route_call r scope"
| "BaseRoute_call re (WebSocketRouteNode r) scope = Awaited (ws_app r) scope"
| "BaseRoute_call re (Mount p app n rx fmt cvs) scope = ASGI_call re app scope"
| "BaseRoute_call re (Host h app n rx fmt cvs) scope = ASGI_call re app scope"
| "ASGI_call re (OtherApp n ro) scope = Awaited_other n scope"
| "ASGI_call re (Router rs redirect dflt ls) scope0 =
     (if scope_type scope0 \<notin> {''http'', ''websocket'', ''lifespan''} then Raised AssertionError
      else
        let scope = with_router (Router rs redirect dflt ls) scope0
        in case Router_scan re rs scope None of
             Inl e \<Rightarrow> Raised e
           | Inr (Full route child) \<Rightarrow> BaseRoute_call re route (scope_update scope child)
           | Inr (NoFull (Some (partial, partial_scope))) \<Rightarrow>
               BaseRoute_call re partial (scope_update scope partial_scope)
           | Inr (NoFull None) \<Rightarrow>
               (case (if scope_type scope = ''http'' \<and> redirect \<and> redirect_path scope \<noteq> []
                      then Router_any_match re rs (scope\<lparr>scope_path := redirect_path scope\<rparr>)
                      else Inr False) of
                  Inl e \<Rightarrow> Raised e
                | Inr True \<Rightarrow>
                    Responded (RedirectResponse (scope\<lparr>scope_path := redirect_path scope\<rparr>)) scope
                | Inr False \<Rightarrow>
                    if scope_type scope = ''lifespan'' then Awaited_lifespan ls scope
                    else (case dflt of
                            None \<Rightarrow> not_found scope
                          | Some app \<Rightarrow> ASGI_call re app scope)))"
  by pat_completeness auto
termination
proof (relation "measure (\<lambda>x. case x of Inl (e, r, sc) \<Rightarrow> size r | Inr (e, a, sc) \<Rightarrow> size a)")
  show "wf (measure (\<lambda>x. case x of Inl (e, r, sc) \<Rightarrow> size r | Inr (e, a, sc) \<Rightarrow> size a))"
    by simp
qed (auto dest!: Router_scan_Full_mem Router_scan_NoFull_mem intro: size_mem_routes)



section \<open>Lifespan\<close>

text \<open>
  An ASGI message is a dictionary with a \<^verbatim>\<open>"type"\<close>; \<^verbatim>\<open>lifespan.startup.failed\<close> also has a
  \<^verbatim>\<open>"message"\<close>.
\<close>

record message =
  message_type :: string
  message_text :: "string option"

text \<open>
  The loop of \<^verbatim>\<open>Lifespan.startup\<close> and of \<^verbatim>\<open>Lifespan.shutdown\<close>. A handler is code from
  outside: \<open>call h w\<close> runs it on the state \<open>w\<close> of the world and gives the new state, with
  the exception if it raised one. The handlers called are listed, in the order of the
  calls. Awaiting a coroutine function and calling a plain one are the same step here.
\<close>

fun run_handlers ::
  "(handler \<Rightarrow> 'w \<Rightarrow> 'w \<times> 'x option) \<Rightarrow> handler list \<Rightarrow> 'w \<Rightarrow> 'w \<times> handler list \<times> 'x option" where
  "run_handlers call [] w = (w, [], None)"
| "run_handlers call (h # hs) w =
     (case (if handler_is_coroutine h then call h w else call h w) of
        (w1, Some e) \<Rightarrow> (w1, [h], Some e)
      | (w1, None) \<Rightarrow>
          (case run_handlers call hs w1 of (w2, called, r) \<Rightarrow> (w2, h # called, r)))"

text \<open>
  How \<^verbatim>\<open>Lifespan.__call__\<close> ends: it returns, an \<^verbatim>\<open>assert\<close> on a received message fails,
  the exception of a handler leaves it, or it waits in \<^verbatim>\<open>receive()\<close> for a message that
  has not come (\<open>incoming\<close> holds the messages that come, in order).
\<close>

datatype 'x ending = Returned | Assert_failed | Handler_raised 'x | Waiting

record ('w, 'x) lifespan_run =
  world :: 'w
  startup_called :: "handler list"
  shutdown_called :: "handler list"
  sent :: "message list"
  ending :: "'x ending"

text \<open>\<^verbatim>\<open>Lifespan.__call__\<close>; \<open>format_exc\<close> is \<^verbatim>\<open>traceback.format_exc()\<close> of the exception caught.\<close>

definition Lifespan_call ::
  "(handler \<Rightarrow> 'w \<Rightarrow> 'w \<times> 'x option) \<Rightarrow> ('x \<Rightarrow> string) \<Rightarrow> Lifespan \<Rightarrow> message list \<Rightarrow> 'w \<Rightarrow>
   ('w, 'x) lifespan_run" where
  "Lifespan_call call format_exc self incoming w =
     (case incoming of
        [] \<Rightarrow> \<lparr>world = w, startup_called = [], shutdown_called = [], sent = [], ending = Waiting\<rparr>
      | m1 # incoming1 \<Rightarrow>
          if message_type m1 \<noteq> ''lifespan.startup''
          then \<lparr>world = w, startup_called = [], shutdown_called = [], sent = [],
                ending = Assert_failed\<rparr>
          else
            (case run_handlers call (startup_handlers self) w of
               (w1, started, Some e) \<Rightarrow>
                 \<lparr>world = w1, startup_called = started, shutdown_called = [],
                  sent = [\<lparr>message_type = ''lifespan.startup.failed'',
                           message_text = Some (format_exc e)\<rparr>],
                  ending = Handler_raised e\<rparr>
             | (w1, started, None) \<Rightarrow>
                 (let sent1 = [\<lparr>message_type = ''lifespan.startup.complete'', message_text = None\<rparr>]
                  in case incoming1 of
                       [] \<Rightarrow> \<lparr>world = w1, startup_called = started, shutdown_called = [],
                               sent = sent1, ending = Waiting\<rparr>
                     | m2 # incoming2 \<Rightarrow>
                         if message_type m2 \<noteq> ''lifespan.shutdown''
                         then \<lparr>world = w1, startup_called = started, shutdown_called = [],
                               sent = sent1, ending = Assert_failed\<rparr>
                         else
                           (case run_handlers call (shutdown_handlers self) w1 of
                              (w2, stopped, Some e) \<Rightarrow>
                                \<lparr>world = w2, startup_called = started, shutdown_called = stopped,
                                 sent = sent1, ending = Handler_raised e\<rparr>
                            | (w2, stopped, None) \<Rightarrow>
                                \<lparr>world = w2, startup_called = started, shutdown_called = stopped,
                                 sent = sent1 @ [\<lparr>message_type = ''lifespan.shutdown.complete'',
                                                  message_text = None\<rparr>],
                                 ending = Returned\<rparr>))))"

section \<open>What a compiled regex stands for\<close>

text \<open>
  Two readings of a compiled regex that the proofs use: the format string with a
  placeholder \<^verbatim>\<open>{name}\<close> for every group, and the groups with their convertors.
  \<open>compile_path\<close> returns both beside the regex (\<open>compile_path_result\<close>).
\<close>

fun format_of :: "seg list \<Rightarrow> string" where
  "format_of [] = []"
| "format_of (Lit l # segs) = l @ format_of segs"
| "format_of (Group n cv # segs) = ''{'' @ n @ ''}'' @ format_of segs"

fun groups_of :: "seg list \<Rightarrow> (string, Convertor) dict" where
  "groups_of [] = []"
| "groups_of (Lit l # segs) = groups_of segs"
| "groups_of (Group n cv # segs) = (n, cv) # groups_of segs"

text \<open>The literal texts of a compiled regex, in order.\<close>

fun lits_of :: "seg list \<Rightarrow> string list" where
  "lits_of [] = []"
| "lits_of (Lit l # segs) = l # lits_of segs"
| "lits_of (Group n cv # segs) = lits_of segs"

text \<open>
  The text a compiled regex stands for once each group is given a string: the literal
  texts with the strings in the places of the groups.
\<close>

fun fill :: "seg list \<Rightarrow> string list \<Rightarrow> string" where
  "fill [] vs = []"
| "fill (Lit l # segs) vs = l @ fill segs vs"
| "fill (Group n cv # segs) [] = fill segs []"
| "fill (Group n cv # segs) (v # vs) = v @ fill segs vs"

section \<open>Examples\<close>

text \<open>The endpoints and scopes the properties below are tried on.\<close>

definition homepage :: callable where
  "homepage = \<lparr>callable_kind = IsFunction, callable_name = ''homepage'', callable_class_name = ''function''\<rparr>"

definition Echo :: callable where
  "Echo = \<lparr>callable_kind = IsClass, callable_name = ''Echo'', callable_class_name = ''type''\<rparr>"


definition items :: callable where
  "items = \<lparr>callable_kind = IsFunction, callable_name = ''items'', callable_class_name = ''function''\<rparr>"

definition no_handlers :: Lifespan where
  "no_handlers = \<lparr>startup_handlers = [], shutdown_handlers = []\<rparr>"

definition request :: "string \<Rightarrow> string \<Rightarrow> string \<Rightarrow> Scope" where
  "request ty path m =
     \<lparr>scope_type = ty, scope_path = path, scope_method = m, scope_headers = [],
      scope_path_params = None, scope_root_path = None, scope_app_root_path = None,
      scope_endpoint = None, scope_router = None, scope_has_app = False\<rparr>"

definition route_items :: Route where
  "route_items =
     \<lparr>route_path = ''/items'', route_endpoint = homepage, route_name = ''homepage'',
      route_include_in_schema = True, route_app = request_response homepage,
      route_methods = Some {''GET'', ''HEAD''}, route_path_regex = [Lit ''/items''],
      route_path_format = ''/items'', route_param_convertors = []\<rparr>"

definition route_items_post :: Route where
  "route_items_post =
     \<lparr>route_path = ''/items'', route_endpoint = items, route_name = ''items'',
      route_include_in_schema = True, route_app = request_response items,
      route_methods = Some {''POST''}, route_path_regex = [Lit ''/items''],
      route_path_format = ''/items'', route_param_convertors = []\<rparr>"

definition route_items_no_methods :: Route where
  "route_items_no_methods =
     \<lparr>route_path = ''/items'', route_endpoint = items, route_name = ''items'',
      route_include_in_schema = True, route_app = request_response items,
      route_methods = Some {}, route_path_regex = [Lit ''/items''],
      route_path_format = ''/items'', route_param_convertors = []\<rparr>"

definition child_of :: "callable \<Rightarrow> child_scope" where
  "child_of endpoint = empty_child\<lparr>child_endpoint := Some (Inl endpoint), child_path_params := Some []\<rparr>"

definition ws_route :: WebSocketRoute where
  "ws_route =
     \<lparr>ws_path = ''/ws'', ws_endpoint = Echo, ws_name = ''Echo'', ws_app = asgi_endpoint Echo,
      ws_path_regex = [Lit ''/ws''], ws_path_format = ''/ws'', ws_param_convertors = []\<rparr>"

text \<open>
  Handlers for the examples: the world is the list of the names of the handlers that
  ran, and the handler named \<^verbatim>\<open>bad\<close> raises.
\<close>

definition named_handler :: "string \<Rightarrow> handler" where
  "named_handler n = \<lparr>handler_name = n, handler_is_coroutine = False\<rparr>"

definition log_call :: "handler \<Rightarrow> string list \<Rightarrow> string list \<times> string option" where
  "log_call h w = (w @ [handler_name h], if handler_name h = ''bad'' then Some ''boom'' else None)"

definition msg :: "string \<Rightarrow> message" where
  "msg t = \<lparr>message_type = t, message_text = None\<rparr>"

definition api_mount :: BaseRoute where
  "api_mount =
     Mount ''/api'' (Router [RouteNode route_items_post] True None no_handlers) (Some ''api'')
       [Lit ''/api/'', Group ''path'' PathConvertor, Lit []] ''/api/{path}''
       [(''path'', PathConvertor)]"

definition route_dot :: Route where
  "route_dot =
     \<lparr>route_path = ''/a.b'', route_endpoint = homepage, route_name = ''homepage'',
      route_include_in_schema = True, route_app = request_response homepage,
      route_methods = Some {''GET'', ''HEAD''}, route_path_regex = [Lit ''/a.b''],
      route_path_format = ''/a.b'', route_param_convertors = []\<rparr>"

definition tenant_host :: BaseRoute where
  "tenant_host =
     Host ''{tenant}.example.org'' (OtherApp ''site'' None) (Some ''site'')
       [Lit [], Group ''tenant'' StringConvertor, Lit ''.example.org'']
       ''{tenant}.example.org'' [(''tenant'', StringConvertor)]"

definition pair_mount :: BaseRoute where
  "pair_mount =
     Mount ''/{a}/{b}'' (Router [RouteNode route_items_post] True None no_handlers) (Some ''m'')
       [Lit ''/'', Group ''a'' StringConvertor, Lit ''/'', Group ''b'' StringConvertor,
        Lit ''/'', Group ''path'' PathConvertor, Lit []]
       ''/{a}/{b}/{path}''
       [(''a'', StringConvertor), (''b'', StringConvertor), (''path'', PathConvertor)]"

definition dot_mount :: BaseRoute where
  "dot_mount =
     Mount ''/a.b'' (OtherApp ''files'' None) None
       [Lit ''/a.b/'', Group ''path'' PathConvertor, Lit []] ''/a.b/{path}''
       [(''path'', PathConvertor)]"

definition route_user :: Route where
  "route_user =
     \<lparr>route_path = ''/users/{username}'', route_endpoint = homepage, route_name = ''homepage'',
      route_include_in_schema = True, route_app = request_response homepage,
      route_methods = Some {''GET'', ''HEAD''},
      route_path_regex = [Lit ''/users/'', Group ''username'' StringConvertor, Lit []],
      route_path_format = ''/users/{username}'',
      route_param_convertors = [(''username'', StringConvertor)]\<rparr>"

definition pair :: callable where
  "pair = \<lparr>callable_kind = IsFunction, callable_name = ''pair'', callable_class_name = ''function''\<rparr>"

definition route_pair :: Route where
  "route_pair =
     \<lparr>route_path = ''/{a}/{b}'', route_endpoint = pair, route_name = ''pair'',
      route_include_in_schema = True, route_app = request_response pair,
      route_methods = Some {''GET'', ''HEAD''},
      route_path_regex = [Lit ''/'', Group ''a'' StringConvertor, Lit ''/'', Group ''b'' StringConvertor, Lit []],
      route_path_format = ''/{a}/{b}'',
      route_param_convertors = [(''a'', StringConvertor), (''b'', StringConvertor)]\<rparr>"

section \<open>Properties\<close>

subsection \<open>Strings\<close>

lemma startswith_Nil [simp]: "startswith s []"
  by (simp add: startswith_def)

lemma startswith_Nil_Cons [simp]: "\<not> startswith [] (c # p)"
  by (simp add: startswith_def)

lemma startswith_Cons_Cons [simp]: "startswith (c # s) (d # p) = (c = d \<and> startswith s p)"
  by (auto simp: startswith_def)

lemma startswith_append [simp]: "startswith (p @ s) p"
  by (simp add: startswith_def)

lemma startswith_iff: "startswith s p = (\<exists>t. s = p @ t)"
  by (metis append_take_drop_id startswith_append startswith_def)

lemma endswith_iff: "endswith s p = (\<exists>t. s = t @ p)"
proof
  assume "endswith s p"
  then have "s = take (length s - length p) s @ p"
    by (metis append_take_drop_id endswith_def)
  then show "\<exists>t. s = t @ p" ..
next
  assume "\<exists>t. s = t @ p"
  then show "endswith s p" by (auto simp: endswith_def)
qed

lemma endswith_slash: "endswith s ''/'' = (s \<noteq> [] \<and> last s = CHR ''/'')"
  by (auto simp: endswith_iff) (metis append_butlast_last_id)

lemma lit_matches_plain:
  "\<forall>c \<in> set l. \<not> regex_special c \<Longrightarrow> lit_matches l s = startswith s l"
  by (induction l s rule: lit_matches.induct) (auto simp: regex_special_def)

lemma lit_matches_split:
  "lit_matches l s \<Longrightarrow> \<exists>a b. s = a @ b \<and> length a = length l"
proof (induction l s rule: lit_matches.induct)
  case (3 p ps c cs)
  then obtain a b where "cs = a @ b" "length a = length ps" by auto
  then have "c # cs = (c # a) @ b \<and> length (c # a) = length (p # ps)" by simp
  then show ?case by blast
qed simp_all

lemma lit_matches_append:
  "lit_matches (l @ l') s = (lit_matches l s \<and> lit_matches l' (drop (length l) s))"
  by (induction l s rule: lit_matches.induct) auto

lemma lit_matches_slash:
  "lit_matches (l @ ''/'') s \<Longrightarrow> \<exists>a b. s = a @ ''/'' @ b \<and> length a = length l"
proof -
  assume a: "lit_matches (l @ ''/'') s"
  then have l: "lit_matches l s" and r: "lit_matches ''/'' (drop (length l) s)"
    by (simp_all add: lit_matches_append)
  from lit_matches_split [OF l] obtain a b where s: "s = a @ b" "length a = length l" by blast
  with r have "lit_matches ''/'' b" by simp
  then obtain b' where "b = ''/'' @ b'" by (cases b) auto
  with s show ?thesis by blast
qed

subsection \<open>The parts \<^verbatim>\<open>compile_path\<close> returns\<close>

lemma format_of_append: "format_of (xs @ ys) = format_of xs @ format_of ys"
  by (induction xs rule: format_of.induct) simp_all

lemma groups_of_append: "groups_of (xs @ ys) = groups_of xs @ groups_of ys"
  by (induction xs rule: groups_of.induct) simp_all

lemma group_names_groups_of: "group_names segs = map fst (groups_of segs)"
  by (induction segs rule: groups_of.induct) simp_all

lemma group_names_append: "group_names (xs @ ys) = group_names xs @ group_names ys"
  by (simp add: group_names_groups_of groups_of_append)

lemma plain_append: "plain (xs @ ys) = (plain xs \<and> plain ys)"
  by (induction xs rule: plain.induct) simp_all

lemma dict_update_append: "dict_update d (e @ f) = dict_update (dict_update d e) f"
  by (induction e arbitrary: d) auto

lemma dict_set_new: "k \<notin> fst ` set d \<Longrightarrow> dict_set d k v = d @ [(k, v)]"
  by (induction d) auto

lemma dict_update_distinct:
  "distinct (map fst (d @ e)) \<Longrightarrow> dict_update d e = d @ e"
proof (induction e arbitrary: d)
  case Nil
  then show ?case by simp
next
  case (Cons kv e)
  obtain k v where kv: "kv = (k, v)" by (cases kv)
  have "k \<notin> fst ` set d" using Cons.prems kv by auto
  then have "dict_set d k v = d @ [(k, v)]" by (rule dict_set_new)
  moreover have "distinct (map fst ((d @ [(k, v)]) @ e))" using Cons.prems kv by simp
  ultimately show ?case using Cons.IH [of "d @ [(k, v)]"] kv by simp
qed

lemma compile_loop_result:
  "compile_loop tbl ms rx fmt cvs = Inr (rx', fmt', cvs') \<Longrightarrow>
   \<exists>add. rx' = rx @ add \<and> fmt' = fmt @ format_of add \<and> cvs' = dict_update cvs (groups_of add)
     \<and> group_names add = map (\<lambda>m. fst (snd m)) ms
     \<and> (\<forall>l. Lit l \<in> set add \<longrightarrow> l \<in> fst ` set ms)
     \<and> (\<forall>n cv. Group n cv \<in> set add \<longrightarrow> cv \<in> ran tbl)"
proof (induction ms arbitrary: rx fmt cvs)
  case Nil
  then show ?case by (intro exI [of _ "[]"]) simp
next
  case (Cons m ms)
  obtain lit n ty where m: "m = (lit, n, ty)" by (cases m)
  define ct where "ct = (case ty of None \<Rightarrow> ''str'' | Some t \<Rightarrow> lstrip CHR '':'' t)"
  from Cons.prems obtain cv where cv: "tbl ct = Some cv"
    and rest: "compile_loop tbl ms (rx @ [Lit lit, Group n cv]) (fmt @ lit @ ''{'' @ n @ ''}'')
                 (dict_set cvs n cv) = Inr (rx', fmt', cvs')"
    by (auto simp: m ct_def Let_def split: option.splits)
  from Cons.IH [OF rest] obtain add where add:
    "rx' = (rx @ [Lit lit, Group n cv]) @ add"
    "fmt' = (fmt @ lit @ ''{'' @ n @ ''}'') @ format_of add"
    "cvs' = dict_update (dict_set cvs n cv) (groups_of add)"
    "group_names add = map (\<lambda>m. fst (snd m)) ms"
    "\<forall>l. Lit l \<in> set add \<longrightarrow> l \<in> fst ` set ms"
    "\<forall>n cv. Group n cv \<in> set add \<longrightarrow> cv \<in> ran tbl"
    by blast
  have "cv \<in> ran tbl" using cv by (auto simp: ran_def)
  then show ?case
    using add by (intro exI [of _ "[Lit lit, Group n cv] @ add"]) (auto simp: m)
qed

lemma compile_path_result:
  assumes "compile_path tbl path = Inr (rx, fmt, cvs)"
  shows "fmt = format_of rx" and "cvs = groups_of rx" and "distinct (group_names rx)"
    and "\<forall>n cv. Group n cv \<in> set rx \<longrightarrow> cv \<in> ran tbl"
proof -
  obtain ms last_lit where f: "finditer [] path = (ms, last_lit)" by (cases "finditer [] path")
  from assms f obtain rx0 fmt0 cvs0 where
    loop: "compile_loop tbl ms [] [] [] = Inr (rx0, fmt0, cvs0)"
    and d: "distinct (group_names rx0)"
    and r: "rx = rx0 @ [Lit last_lit]" "fmt = fmt0 @ last_lit" "cvs = cvs0"
    by (auto simp: compile_path_def split: sum.splits if_splits)
  from compile_loop_result [OF loop] obtain add where add:
    "rx0 = add" "fmt0 = format_of add" "cvs0 = dict_update [] (groups_of add)"
    "\<forall>n cv. Group n cv \<in> set add \<longrightarrow> cv \<in> ran tbl"
    by auto
  show "fmt = format_of rx" using r add by (simp add: format_of_append)
  show "distinct (group_names rx)" using d r by (simp add: group_names_append)
  have "dict_update [] (groups_of add) = [] @ groups_of add"
    using d add(1) by (intro dict_update_distinct) (simp add: group_names_groups_of)
  then show "cvs = groups_of rx" using r add by (simp add: groups_of_append)
  show "\<forall>n cv. Group n cv \<in> set rx \<longrightarrow> cv \<in> ran tbl" using add r by auto
qed

lemma try_down_Some:
  "try_down f lo hi = Some r \<Longrightarrow> \<exists>k. lo \<le> k \<and> k \<le> hi \<and> f k = Some r"
proof (induction hi)
  case 0
  then show ?case by (auto split: if_splits)
next
  case (Suc hi)
  show ?case
  proof (cases "f (Suc hi)")
    case None
    with Suc.prems have "try_down f lo hi = Some r" by (auto split: if_splits)
    from Suc.IH [OF this] show ?thesis by (meson le_SucI)
  next
    case (Some a)
    with Suc.prems have "a = r" "\<not> Suc hi < lo" by (auto split: if_splits)
    with Some show ?thesis by (intro exI [of _ "Suc hi"]) simp
  qed
qed

lemma regex_match_names:
  "regex_match rx s = Some gs \<Longrightarrow> map fst gs = group_names rx"
proof (induction rx arbitrary: s gs rule: group_names.induct)
  case 1
  then show ?case by (auto split: if_splits)
next
  case (2 l segs)
  then show ?case by (auto split: if_splits)
next
  case (3 n cv segs)
  from 3(2) obtain k where
    "(case regex_match segs (drop k s) of None \<Rightarrow> None
      | Some groups \<Rightarrow> Some ((n, take k s) # groups)) = Some gs"
    by (auto dest!: try_down_Some)
  then obtain g where "regex_match segs (drop k s) = Some g" "gs = (n, take k s) # g"
    by (auto split: option.splits)
  with 3(1) show ?case by auto
qed

lemma convert_params_total:
  "\<forall>k\<in>set (map fst gs). dict_get cvs k \<noteq> None \<Longrightarrow>
   convert_params cvs gs = Inr (map (\<lambda>kv. (fst kv, convert (the (dict_get cvs (fst kv))) (snd kv))) gs)"
  by (induction gs) (auto split: option.splits)

lemma convert_params_groups:
  assumes "compile_path tbl path = Inr (rx, fmt, cvs)"
    and "set (map fst gs) \<subseteq> set (group_names rx)"
  shows "convert_params cvs gs =
     Inr (map (\<lambda>kv. (fst kv, convert (the (dict_get cvs (fst kv))) (snd kv))) gs)"
proof (rule convert_params_total)
  have "map fst cvs = group_names rx"
    using compile_path_result(2) [OF assms(1)] by (simp add: group_names_groups_of)
  then have "set (group_names rx) = fst ` set cvs" by (metis set_map)
  then show "\<forall>k\<in>set (map fst gs). dict_get cvs k \<noteq> None"
    using assms(2) by (auto simp: dict_get_def map_of_eq_None_iff)
qed

lemma convert_params_compiled:
  assumes "compile_path tbl path = Inr (rx, fmt, cvs)" and "regex_match rx s = Some gs"
  shows "convert_params cvs gs =
     Inr (map (\<lambda>kv. (fst kv, convert (the (dict_get cvs (fst kv))) (snd kv))) gs)"
  by (rule convert_params_groups [OF assms(1)]) (simp add: regex_match_names [OF assms(2)])

lemma Route_init_compile:
  assumes "Route_init tbl path endpoint methods name inc = Inr r"
  shows "compile_path tbl path = Inr (route_path_regex r, route_path_format r, route_param_convertors r)"
    and "route_endpoint r = endpoint"
    and "route_name r = (case name of None \<Rightarrow> get_name endpoint | Some n \<Rightarrow> n)"
  using assms
  by (auto simp: Route_init_def Let_def split: if_splits sum.splits prod.splits)

subsection \<open>Construction of a route\<close>


lemma upper_GET: "upper ''GET'' = ''GET''"
  by (simp add: upper_def upper_char_def)

lemma Route_init_methods:
  assumes "Route_init tbl path endpoint methods name include_in_schema = Inr r"
  shows "route_methods r =
     (case (if (callable_kind endpoint = IsFunction \<or> callable_kind endpoint = IsMethod) \<and> methods = None
            then Some [''GET''] else methods) of
        None \<Rightarrow> None
      | Some ms \<Rightarrow> Some (if ''GET'' \<in> set (map upper ms) then insert ''HEAD'' (set (map upper ms))
                         else set (map upper ms)))"
    and "route_app r =
     (if callable_kind endpoint = IsFunction \<or> callable_kind endpoint = IsMethod
      then request_response endpoint else asgi_endpoint endpoint)"
  using assms
  by (auto simp: Route_init_def Let_def split: if_splits sum.splits prod.splits option.splits)

text \<open>
  C9. A \<^verbatim>\<open>Route\<close> built from a function or a method with no \<open>methods\<close> argument has the
  allowed methods \<open>{GET, HEAD}\<close>. A \<^verbatim>\<open>Route\<close> built from any other endpoint (a class,
  treated as an ASGI application) with no \<open>methods\<close> argument has no set of methods at all:
  its \<open>matches\<close> never returns \<open>PARTIAL\<close>, and calling it hands every request, whatever
  its method, to the endpoint.
\<close>

theorem Route_default_methods:
  assumes "Route_init tbl path endpoint None name include_in_schema = Inr r"
  shows "(callable_kind endpoint = IsFunction \<or> callable_kind endpoint = IsMethod
            \<longrightarrow> route_methods r = Some {''GET'', ''HEAD''})
       \<and> (callable_kind endpoint \<noteq> IsFunction \<and> callable_kind endpoint \<noteq> IsMethod
            \<longrightarrow> route_methods r = None
              \<and> (\<forall>scope child. Route_matches re r scope \<noteq> Inr (PARTIAL, child))
              \<and> (\<forall>scope. Route_call r scope = Awaited (asgi_endpoint endpoint) scope))"
proof -
  note m = Route_init_methods [OF assms]
  have a: "callable_kind endpoint = IsFunction \<or> callable_kind endpoint = IsMethod
       \<Longrightarrow> route_methods r = Some {''GET'', ''HEAD''}"
    using m(1) by (auto simp: upper_GET)
  have b: "route_methods r = None" if "callable_kind endpoint \<noteq> IsFunction" "callable_kind endpoint \<noteq> IsMethod"
    using m(1) that by simp
  have c: "Route_matches re r scope \<noteq> Inr (PARTIAL, child)" if "route_methods r = None" for scope child
    using that
    by (auto simp: Route_matches_def method_rejected_def Let_def split: option.splits sum.splits)
  have d: "Route_call r scope = Awaited (asgi_endpoint endpoint) scope"
    if "callable_kind endpoint \<noteq> IsFunction" "callable_kind endpoint \<noteq> IsMethod" for scope
    using that b m(2) by (simp add: Route_call_def method_rejected_def)
  show ?thesis using a b c d by blast
qed

lemma finditer_items: "finditer [] ''/items'' = ([], ''/items'')"
  by (simp add: PARAM_REGEX_match_def)

lemma compile_path_items:
  "compile_path tbl ''/items'' = Inr ([Lit ''/items''], ''/items'', [])"
  by (simp add: compile_path_def finditer_items del: finditer.simps)

lemma Route_init_homepage:
  "Route_init tbl ''/items'' homepage None None True =
     Inr \<lparr>route_path = ''/items'', route_endpoint = homepage, route_name = ''homepage'',
          route_include_in_schema = True, route_app = request_response homepage,
          route_methods = Some {''GET'', ''HEAD''}, route_path_regex = [Lit ''/items''],
          route_path_format = ''/items'', route_param_convertors = []\<rparr>"
  by (simp add: Route_init_def compile_path_items startswith_def homepage_def get_name_def upper_GET insert_commute)

text \<open>
  C9, on examples: the function \<open>homepage\<close> and the class \<open>Echo\<close> at \<^verbatim>\<open>/items\<close>; a
  \<^verbatim>\<open>DELETE\<close> request reaches \<open>Echo\<close>.
\<close>

theorem Route_default_methods_witness:
  "(\<exists>r. Route_init str_path_table ''/items'' homepage None None True = Inr r
        \<and> route_methods r = Some {''GET'', ''HEAD''})
 \<and> (\<exists>r. Route_init str_path_table ''/items'' Echo None None True = Inr r
        \<and> route_methods r = None
        \<and> Route_call r (request ''http'' ''/items'' ''DELETE'')
          = Awaited (asgi_endpoint Echo) (request ''http'' ''/items'' ''DELETE''))"
proof -
  obtain r1 where r1: "Route_init str_path_table ''/items'' homepage None None True = Inr r1"
    by (simp add: Route_init_homepage)
  obtain r2 where r2: "Route_init str_path_table ''/items'' Echo None None True = Inr r2"
    by (simp add: Route_init_def compile_path_items startswith_def Echo_def)
  have k1: "callable_kind homepage = IsFunction" by (simp add: homepage_def)
  have k2: "callable_kind Echo \<noteq> IsFunction \<and> callable_kind Echo \<noteq> IsMethod" by (simp add: Echo_def)
  show ?thesis
    using Route_default_methods [OF r1] Route_default_methods [OF r2] r1 r2 k1 k2 by blast
qed

subsection \<open>Dispatch by a router\<close>

lemma get_path_params_scope_router [simp]:
  "get_path_params (scope\<lparr>scope_router := v\<rparr>) = get_path_params scope"
  by (simp add: get_path_params_def)

lemma request_host_scope_router [simp]:
  "request_host (scope\<lparr>scope_router := v\<rparr>) = request_host scope"
  by (simp add: request_host_def)

lemma matches_scope_router [simp]: "matches re x (scope\<lparr>scope_router := v\<rparr>) = matches re x scope"
  by (cases x)
    (simp_all add: Route_matches_def WebSocketRoute_matches_def Mount_matches_def
      Host_matches_def Let_def split: option.splits sum.splits pyval.splits)

lemma Router_scan_Full:
  assumes "\<forall>x\<in>set pre. \<exists>m c. matches re x scope = Inr (m, c) \<and> m \<noteq> FULL"
    and "matches re route scope = Inr (FULL, child)"
  shows "Router_scan re (pre @ route # post) scope partial = Inr (Full route child)"
  using assms by (induction pre arbitrary: partial) auto

lemma Router_scan_keeps_partial:
  assumes "\<forall>x\<in>set rs. \<exists>m c. matches re x scope = Inr (m, c) \<and> m \<noteq> FULL"
  shows "Router_scan re rs scope (Some p) = Inr (NoFull (Some p))"
  using assms by (induction rs) auto

lemma Router_scan_Partial:
  assumes "\<forall>x\<in>set pre. \<exists>c. matches re x scope = Inr (NONE, c)"
    and "matches re route scope = Inr (PARTIAL, child)"
    and "\<forall>x\<in>set post. \<exists>m c. matches re x scope = Inr (m, c) \<and> m \<noteq> FULL"
  shows "Router_scan re (pre @ route # post) scope None = Inr (NoFull (Some (route, child)))"
  using assms by (induction pre) (auto simp: Router_scan_keeps_partial)

lemma Router_scan_None:
  assumes "\<forall>x\<in>set rs. \<exists>c. matches re x scope = Inr (NONE, c)"
  shows "Router_scan re rs scope None = Inr (NoFull None)"
  using assms by (induction rs) auto

lemma matches_with_router [simp]: "matches re x (with_router self scope) = matches re x scope"
  by (simp add: with_router_def)

lemma scope_type_with_router [simp]: "scope_type (with_router self scope) = scope_type scope"
  by (simp add: with_router_def)

lemma Router_call_unfold:
  "ASGI_call re (Router rs redirect dflt ls) scope0 =
     (if scope_type scope0 \<notin> {''http'', ''websocket'', ''lifespan''} then Raised AssertionError
      else
        let scope = with_router (Router rs redirect dflt ls) scope0
        in case Router_scan re rs scope None of
             Inl e \<Rightarrow> Raised e
           | Inr (Full route child) \<Rightarrow> BaseRoute_call re route (scope_update scope child)
           | Inr (NoFull (Some (partial, partial_scope))) \<Rightarrow>
               BaseRoute_call re partial (scope_update scope partial_scope)
           | Inr (NoFull None) \<Rightarrow>
               (case (if scope_type scope = ''http'' \<and> redirect \<and> redirect_path scope \<noteq> []
                      then Router_any_match re rs (scope\<lparr>scope_path := redirect_path scope\<rparr>)
                      else Inr False) of
                  Inl e \<Rightarrow> Raised e
                | Inr True \<Rightarrow>
                    Responded (RedirectResponse (scope\<lparr>scope_path := redirect_path scope\<rparr>)) scope
                | Inr False \<Rightarrow>
                    if scope_type scope = ''lifespan'' then Awaited_lifespan ls scope
                    else (case dflt of
                            None \<Rightarrow> not_found scope
                          | Some app \<Rightarrow> ASGI_call re app scope)))"
  by simp

lemma Route_matches_method:
  assumes "Route_matches re r scope = Inr (m, child)" and "m \<noteq> NONE"
  shows "(m = FULL \<longrightarrow> \<not> method_rejected (route_methods r) (scope_method scope))
       \<and> (m = PARTIAL \<longrightarrow> method_rejected (route_methods r) (scope_method scope))
       \<and> child_endpoint child = Some (Inl (route_endpoint r))"
  using assms
  by (auto simp: Route_matches_def Let_def empty_child_def
      split: if_splits option.splits sum.splits)

lemma WebSocketRoute_matches_child:
  assumes "WebSocketRoute_matches re r scope = Inr (m, child)" and "m \<noteq> NONE"
  shows "child_endpoint child = Some (Inl (ws_endpoint r))"
  using assms
  by (auto simp: WebSocketRoute_matches_def Let_def empty_child_def
      split: if_splits option.splits sum.splits)

text \<open>
  C1. A router asked for an http or websocket request calls the first node, in the order
  of \<open>routes\<close>, whose \<open>matches\<close> returns \<open>FULL\<close>; the nodes before it may have returned
  \<open>PARTIAL\<close>. When no node returns \<open>FULL\<close>, it calls the first node that returned
  \<open>PARTIAL\<close>. The node is called with the scope \<open>merged\<close>: the request's scope, with the
  router in it if it had none, and with every key of the node's child scope written over
  it. What the call comes to: a leaf route that matched in full has its application
  awaited with \<open>merged\<close>, whose endpoint is the route's; a leaf route that matched in part
  answers 405 (or raises it inside an application); a websocket route has its
  application awaited; a mount or a host hands \<open>merged\<close> to the application it wraps.
\<close>

theorem Router_dispatch_order:
  assumes "scope_type scope \<in> {''http'', ''websocket''}"
    and "self = Router (pre @ route # post) redirect dflt ls"
    and "matches re route scope = Inr (m, child)"
    and "m = FULL \<and> (\<forall>x\<in>set pre. \<exists>m' c. matches re x scope = Inr (m', c) \<and> m' \<noteq> FULL)
       \<or> m = PARTIAL \<and> (\<forall>x\<in>set pre. \<exists>c. matches re x scope = Inr (NONE, c))
           \<and> (\<forall>x\<in>set post. \<exists>m' c. matches re x scope = Inr (m', c) \<and> m' \<noteq> FULL)"
    and "merged =
           scope\<lparr>
             scope_router := (case scope_router scope of None \<Rightarrow> Some self | Some x \<Rightarrow> Some x),
             scope_endpoint :=
               (case child_endpoint child of None \<Rightarrow> scope_endpoint scope | Some e \<Rightarrow> Some e),
             scope_path_params :=
               (case child_path_params child of None \<Rightarrow> scope_path_params scope | Some p \<Rightarrow> Some p),
             scope_app_root_path :=
               (case child_app_root_path child of None \<Rightarrow> scope_app_root_path scope
                | Some p \<Rightarrow> Some p),
             scope_root_path :=
               (case child_root_path child of None \<Rightarrow> scope_root_path scope | Some p \<Rightarrow> Some p),
             scope_path := (case child_path child of None \<Rightarrow> scope_path scope | Some p \<Rightarrow> p)\<rparr>"
  shows "ASGI_call re self scope = BaseRoute_call re route merged
       \<and> (\<forall>r. route = RouteNode r \<longrightarrow>
            scope_endpoint merged = Some (Inl (route_endpoint r))
          \<and> ASGI_call re self scope =
              (if m = FULL then Awaited (route_app r) merged
               else if scope_has_app scope then Raised (HTTPException 405)
               else Responded (PlainTextResponse ''Method Not Allowed'' 405) merged))
       \<and> (\<forall>r. route = WebSocketRouteNode r \<longrightarrow>
            scope_endpoint merged = Some (Inl (ws_endpoint r))
          \<and> ASGI_call re self scope = Awaited (ws_app r) merged)
       \<and> (\<forall>p app n rx fmt cvs. route = Mount p app n rx fmt cvs \<longrightarrow>
            ASGI_call re self scope = ASGI_call re app merged)
       \<and> (\<forall>h app n rx fmt cvs. route = Host h app n rx fmt cvs \<longrightarrow>
            ASGI_call re self scope = ASGI_call re app merged)
       \<and> (\<forall>p a ro n rx fmt cvs. route = Mount p (OtherApp a ro) n rx fmt cvs \<longrightarrow>
            ASGI_call re self scope = Awaited_other a merged)"
proof -
  let ?s = "with_router self scope"
  have ty: "scope_type scope \<in> {''http'', ''websocket'', ''lifespan''}"
    using assms(1) by auto
  have merged: "merged = scope_update ?s child"
    unfolding assms(5) by (simp add: scope_update_def with_router_def split: option.splits)
  have m: "m \<noteq> NONE" using assms(4) by auto
  have call: "ASGI_call re self scope = BaseRoute_call re route merged"
    using assms(4)
  proof
    assume a: "m = FULL \<and> (\<forall>x\<in>set pre. \<exists>m' c. matches re x scope = Inr (m', c) \<and> m' \<noteq> FULL)"
    then have "Router_scan re (pre @ route # post) ?s None = Inr (Full route child)"
      using assms(3) by (intro Router_scan_Full) simp_all
    then show ?thesis
      using ty unfolding assms(2) Router_call_unfold merged by (simp add: Let_def)
  next
    assume a: "m = PARTIAL \<and> (\<forall>x\<in>set pre. \<exists>c. matches re x scope = Inr (NONE, c))
           \<and> (\<forall>x\<in>set post. \<exists>m' c. matches re x scope = Inr (m', c) \<and> m' \<noteq> FULL)"
    then have "Router_scan re (pre @ route # post) ?s None = Inr (NoFull (Some (route, child)))"
      using assms(3) by (intro Router_scan_Partial) simp_all
    then show ?thesis
      using ty unfolding assms(2) Router_call_unfold merged by (simp add: Let_def)
  qed
  have fields: "scope_method merged = scope_method scope" "scope_has_app merged = scope_has_app scope"
    unfolding assms(5) by simp_all
  have leaf: "scope_endpoint merged = Some (Inl (route_endpoint r))
          \<and> ASGI_call re self scope =
              (if m = FULL then Awaited (route_app r) merged
               else if scope_has_app scope then Raised (HTTPException 405)
               else Responded (PlainTextResponse ''Method Not Allowed'' 405) merged)"
    if r: "route = RouteNode r" for r
  proof -
    have rm: "Route_matches re r scope = Inr (m, child)" using assms(3) r by simp
    note f = Route_matches_method [OF rm m]
    have e: "scope_endpoint merged = Some (Inl (route_endpoint r))"
      unfolding assms(5) using f by simp
    have "m = FULL \<or> m = PARTIAL" using assms(4) by auto
    then show ?thesis
      using f e call r fields by (auto simp: Route_call_def)
  qed
  have ws: "scope_endpoint merged = Some (Inl (ws_endpoint r))
          \<and> ASGI_call re self scope = Awaited (ws_app r) merged"
    if r: "route = WebSocketRouteNode r" for r
  proof -
    have rm: "WebSocketRoute_matches re r scope = Inr (m, child)" using assms(3) r by simp
    have "scope_endpoint merged = Some (Inl (ws_endpoint r))"
      unfolding assms(5) using WebSocketRoute_matches_child [OF rm m] by simp
    then show ?thesis using call r by simp
  qed
  show ?thesis
    using call leaf ws by simp
qed

lemma upper_POST: "upper ''POST'' = ''POST''"
  by (simp add: upper_def upper_char_def)

lemma Route_init_items: "Route_init tbl ''/items'' homepage None None True = Inr route_items"
  by (simp add: Route_init_homepage route_items_def)

lemma Route_init_items_post:
  "Route_init tbl ''/items'' items (Some [''post'']) None True = Inr route_items_post"
  by (simp add: Route_init_def compile_path_items startswith_def items_def get_name_def
      upper_def upper_char_def route_items_post_def)

lemma Route_init_items_no_methods:
  "Route_init tbl ''/items'' items (Some []) None True = Inr route_items_no_methods"
  by (simp add: Route_init_def compile_path_items startswith_def items_def get_name_def
      route_items_no_methods_def)

lemma regex_match_items:
  "regex_match [Lit ''/items''] ''/items'' = Some []"
  "regex_match [Lit ''/items''] ''/items/'' = None"
  by (simp_all add: startswith_def)

lemma Route_matches_items:
  "Route_matches regex_match route_items (request ''http'' ''/items'' m) =
     Inr (if m \<in> {''GET'', ''HEAD''} then FULL else PARTIAL, child_of homepage)"
  by (simp add: Route_matches_def route_items_def request_def regex_match_items
      get_path_params_def method_rejected_def child_of_def)

lemma Route_matches_items_post:
  "Route_matches regex_match route_items_post (request ''http'' ''/items'' m) =
     Inr (if m = ''POST'' then FULL else PARTIAL, child_of items)"
  by (simp add: Route_matches_def route_items_post_def request_def regex_match_items
      get_path_params_def method_rejected_def child_of_def)

text \<open>
  C1, on an example: two routes at \<^verbatim>\<open>/items\<close>, the first for \<^verbatim>\<open>GET\<close>, the second for
  \<^verbatim>\<open>POST\<close>. A \<^verbatim>\<open>POST\<close> goes to the second, past the partial match of the first: its
  application is awaited, with the endpoint \<open>items\<close>, the path parameters and the router in
  the scope. A \<^verbatim>\<open>DELETE\<close> goes to the first, the first of two partial matches, which answers
  405.
\<close>

theorem Router_dispatch_order_witness:
  "ASGI_call regex_match
     (Router [RouteNode route_items, RouteNode route_items_post] True None no_handlers)
     (request ''http'' ''/items'' ''POST'')
   = Awaited (request_response items)
       \<lparr>scope_type = ''http'', scope_path = ''/items'', scope_method = ''POST'',
        scope_headers = [], scope_path_params = Some [], scope_root_path = None,
        scope_app_root_path = None, scope_endpoint = Some (Inl items),
        scope_router =
          Some (Router [RouteNode route_items, RouteNode route_items_post] True None no_handlers),
        scope_has_app = False\<rparr>
 \<and> ASGI_call regex_match
     (Router [RouteNode route_items, RouteNode route_items_post] True None no_handlers)
     (request ''http'' ''/items'' ''DELETE'')
   = Responded (PlainTextResponse ''Method Not Allowed'' 405)
       \<lparr>scope_type = ''http'', scope_path = ''/items'', scope_method = ''DELETE'',
        scope_headers = [], scope_path_params = Some [], scope_root_path = None,
        scope_app_root_path = None, scope_endpoint = Some (Inl homepage),
        scope_router =
          Some (Router [RouteNode route_items, RouteNode route_items_post] True None no_handlers),
        scope_has_app = False\<rparr>"
proof -
  let ?R = "Router [RouteNode route_items, RouteNode route_items_post] True None no_handlers"
  let ?post = "\<lparr>scope_type = ''http'', scope_path = ''/items'', scope_method = ''POST'',
        scope_headers = [], scope_path_params = Some [], scope_root_path = None,
        scope_app_root_path = None, scope_endpoint = Some (Inl items),
        scope_router = Some ?R, scope_has_app = False\<rparr>"
  let ?delete = "\<lparr>scope_type = ''http'', scope_path = ''/items'', scope_method = ''DELETE'',
        scope_headers = [], scope_path_params = Some [], scope_root_path = None,
        scope_app_root_path = None, scope_endpoint = Some (Inl homepage),
        scope_router = Some ?R, scope_has_app = False\<rparr>"
  have ty: "scope_type (request ''http'' ''/items'' m) \<in> {''http'', ''websocket''}" for m
    by (simp add: request_def)
  have app: "route_app route_items_post = request_response items"
    by (simp add: route_items_post_def)
  have a1: "?R = Router ([RouteNode route_items] @ RouteNode route_items_post # []) True None no_handlers"
    by simp
  have a2: "matches regex_match (RouteNode route_items_post) (request ''http'' ''/items'' ''POST'')
         = Inr (FULL, child_of items)"
    by (simp add: Route_matches_items_post)
  have a3: "FULL = FULL \<and> (\<forall>x\<in>set [RouteNode route_items]. \<exists>m' c.
               matches regex_match x (request ''http'' ''/items'' ''POST'') = Inr (m', c) \<and> m' \<noteq> FULL)
       \<or> FULL = PARTIAL \<and> (\<forall>x\<in>set [RouteNode route_items]. \<exists>c.
               matches regex_match x (request ''http'' ''/items'' ''POST'') = Inr (NONE, c))
           \<and> (\<forall>x\<in>set []. \<exists>m' c.
               matches regex_match x (request ''http'' ''/items'' ''POST'') = Inr (m', c) \<and> m' \<noteq> FULL)"
    by (simp add: Route_matches_items)
  have a4: "?post = (request ''http'' ''/items'' ''POST'')\<lparr>
             scope_router := (case scope_router (request ''http'' ''/items'' ''POST'') of
                                None \<Rightarrow> Some ?R | Some x \<Rightarrow> Some x),
             scope_endpoint :=
               (case child_endpoint (child_of items) of
                  None \<Rightarrow> scope_endpoint (request ''http'' ''/items'' ''POST'') | Some e \<Rightarrow> Some e),
             scope_path_params :=
               (case child_path_params (child_of items) of
                  None \<Rightarrow> scope_path_params (request ''http'' ''/items'' ''POST'') | Some p \<Rightarrow> Some p),
             scope_app_root_path :=
               (case child_app_root_path (child_of items) of
                  None \<Rightarrow> scope_app_root_path (request ''http'' ''/items'' ''POST'')
                | Some p \<Rightarrow> Some p),
             scope_root_path :=
               (case child_root_path (child_of items) of
                  None \<Rightarrow> scope_root_path (request ''http'' ''/items'' ''POST'') | Some p \<Rightarrow> Some p),
             scope_path := (case child_path (child_of items) of
                  None \<Rightarrow> scope_path (request ''http'' ''/items'' ''POST'') | Some p \<Rightarrow> p)\<rparr>"
    by (simp add: request_def child_of_def empty_child_def)
  have a: "ASGI_call regex_match ?R (request ''http'' ''/items'' ''POST'')
         = Awaited (request_response items) ?post"
    using Router_dispatch_order [OF ty a1 a2 a3 a4, THEN conjunct2, THEN conjunct1, rule_format,
        OF refl, THEN conjunct2]
    by (simp add: app del: ASGI_call.simps)
  have app': "route_app route_items = request_response homepage"
    by (simp add: route_items_def)
  have noapp: "\<not> scope_has_app (request ''http'' ''/items'' ''DELETE'')"
    by (simp add: request_def)
  have b1: "?R = Router ([] @ RouteNode route_items # [RouteNode route_items_post]) True None no_handlers"
    by simp
  have b2: "matches regex_match (RouteNode route_items) (request ''http'' ''/items'' ''DELETE'')
         = Inr (PARTIAL, child_of homepage)"
    by (simp add: Route_matches_items)
  have b3: "PARTIAL = FULL \<and> (\<forall>x\<in>set []. \<exists>m' c.
               matches regex_match x (request ''http'' ''/items'' ''DELETE'') = Inr (m', c) \<and> m' \<noteq> FULL)
       \<or> PARTIAL = PARTIAL \<and> (\<forall>x\<in>set []. \<exists>c.
               matches regex_match x (request ''http'' ''/items'' ''DELETE'') = Inr (NONE, c))
           \<and> (\<forall>x\<in>set [RouteNode route_items_post]. \<exists>m' c.
               matches regex_match x (request ''http'' ''/items'' ''DELETE'') = Inr (m', c) \<and> m' \<noteq> FULL)"
    by (simp add: Route_matches_items_post)
  have b4: "?delete = (request ''http'' ''/items'' ''DELETE'')\<lparr>
             scope_router := (case scope_router (request ''http'' ''/items'' ''DELETE'') of
                                None \<Rightarrow> Some ?R | Some x \<Rightarrow> Some x),
             scope_endpoint :=
               (case child_endpoint (child_of homepage) of
                  None \<Rightarrow> scope_endpoint (request ''http'' ''/items'' ''DELETE'') | Some e \<Rightarrow> Some e),
             scope_path_params :=
               (case child_path_params (child_of homepage) of
                  None \<Rightarrow> scope_path_params (request ''http'' ''/items'' ''DELETE'') | Some p \<Rightarrow> Some p),
             scope_app_root_path :=
               (case child_app_root_path (child_of homepage) of
                  None \<Rightarrow> scope_app_root_path (request ''http'' ''/items'' ''DELETE'')
                | Some p \<Rightarrow> Some p),
             scope_root_path :=
               (case child_root_path (child_of homepage) of
                  None \<Rightarrow> scope_root_path (request ''http'' ''/items'' ''DELETE'') | Some p \<Rightarrow> Some p),
             scope_path := (case child_path (child_of homepage) of
                  None \<Rightarrow> scope_path (request ''http'' ''/items'' ''DELETE'') | Some p \<Rightarrow> p)\<rparr>"
    by (simp add: request_def child_of_def empty_child_def)
  have b: "ASGI_call regex_match ?R (request ''http'' ''/items'' ''DELETE'')
         = Responded (PlainTextResponse ''Method Not Allowed'' 405) ?delete"
    using Router_dispatch_order [OF ty b1 b2 b3 b4, THEN conjunct2, THEN conjunct1, rule_format,
        OF refl, THEN conjunct2]
    by (simp add: app' noapp del: ASGI_call.simps)
  show ?thesis using a b by simp
qed

subsection \<open>Redirect to the path with or without its trailing slash\<close>

lemma Router_any_match_iff:
  assumes "\<forall>x\<in>set rs. \<exists>m c. matches re x scope = Inr (m, c)"
  shows "Router_any_match re rs scope =
           Inr (\<exists>x\<in>set rs. \<exists>m c. matches re x scope = Inr (m, c) \<and> m \<noteq> NONE)"
  using assms
proof (induction rs)
  case Nil
  then show ?case by simp
next
  case (Cons x rs)
  then obtain m c where m: "matches re x scope = Inr (m, c)" by auto
  show ?case
  proof (cases "m = NONE")
    case True
    then show ?thesis using Cons m by auto
  next
    case False
    then show ?thesis using m by auto
  qed
qed

lemma redirect_path_with_router [simp]:
  "redirect_path (with_router self scope) = redirect_path scope"
  by (simp add: with_router_def redirect_path_def)

lemma with_router_path_commute:
  "(with_router self scope)\<lparr>scope_path := p\<rparr> = with_router self (scope\<lparr>scope_path := p\<rparr>)"
  by (simp add: with_router_def)

lemma rstrip_snoc: "rstrip c (s @ [d]) = (if d = c then rstrip c s else s @ [d])"
  by (simp add: rstrip_def)

lemma rstrip_eq_Nil: "rstrip c s = [] \<longleftrightarrow> (\<forall>x\<in>set s. x = c)"
  by (simp add: rstrip_def)

lemma redirect_path_strip:
  assumes "scope_path scope = p @ ''/''" and "p \<noteq> []" and "last p \<noteq> CHR ''/''"
  shows "redirect_path scope = p"
proof -
  obtain ys y where p: "p = ys @ [y]" using assms(2) by (cases p rule: rev_cases) auto
  then have "y \<noteq> CHR ''/''" using assms(3) by simp
  then show ?thesis
    by (simp add: redirect_path_def endswith_slash rstrip_def assms(1) p)
qed

lemma rstrip_replicate:
  assumes "p = [] \<or> last p \<noteq> c"
  shows "rstrip c (p @ replicate n c) = p"
proof -
  have "dropWhile (\<lambda>x. x = c) (replicate n c @ rev p) = dropWhile (\<lambda>x. x = c) (rev p)"
    by (induction n) simp_all
  moreover have "dropWhile (\<lambda>x. x = c) (rev p) = rev p"
    using assms by (cases p rule: rev_cases) auto
  ultimately show ?thesis by (simp add: rstrip_def)
qed

lemma redirect_path_strip_all:
  assumes "scope_path scope = p @ replicate (Suc k) CHR ''/''" and "p = [] \<or> last p \<noteq> CHR ''/''"
  shows "redirect_path scope = p"
proof -
  have "endswith (scope_path scope) ''/''"
    unfolding assms(1) endswith_iff
    by (rule exI [of _ "p @ replicate k CHR ''/''"]) (simp add: replicate_append_same)
  then show ?thesis
    using rstrip_replicate [OF assms(2), of "Suc k"] by (simp add: redirect_path_def assms(1))
qed

text \<open>
  C2, as the code has it. The redirect is for \<^verbatim>\<open>http\<close> requests only: a websocket request
  that no node matches goes to the default application whatever the toggled path
  matches. With \<open>redirect_slashes\<close> set and no node matching an \<^verbatim>\<open>http\<close> request, the path
  is toggled: a path that ends in a slash loses all its trailing slashes (\<open>p\<close> followed by
  one or more slashes becomes \<open>p\<close> when \<open>p\<close> does not end in a slash), any other path gets
  one appended, and a path made of slashes only (the root \<^verbatim>\<open>/\<close>) has no toggled path. If
  some node matches the scope with the toggled path, at any level, the response is a
  redirect built from that scope; if none does, or there is no toggled path, the request
  goes to the default application (\<open>not_found\<close> when none is set).
\<close>

theorem Router_redirect_slashes:
  assumes "scope_type scope \<in> {''http'', ''websocket''}"
    and "self = Router rs True dflt ls"
    and "\<forall>x\<in>set rs. \<exists>c. matches re x scope = Inr (NONE, c)"
    and "toggled = scope\<lparr>scope_path := redirect_path scope\<rparr>"
    and "scope_type scope = ''http'' \<longrightarrow> (\<forall>x\<in>set rs. \<exists>m c. matches re x toggled = Inr (m, c))"
  shows "(\<forall>p k. scope_path scope = p @ replicate (Suc k) CHR ''/'' \<and> (p = [] \<or> last p \<noteq> CHR ''/'')
            \<longrightarrow> redirect_path scope = p)
       \<and> (scope_path scope = [] \<or> last (scope_path scope) \<noteq> CHR ''/''
            \<longrightarrow> redirect_path scope = scope_path scope @ ''/'')
       \<and> (redirect_path scope = [] \<longleftrightarrow>
            scope_path scope \<noteq> [] \<and> (\<forall>c\<in>set (scope_path scope). c = CHR ''/''))
       \<and> ASGI_call re self scope =
           (if scope_type scope = ''http'' \<and> redirect_path scope \<noteq> []
               \<and> (\<exists>x\<in>set rs. \<exists>m c. matches re x toggled = Inr (m, c) \<and> m \<noteq> NONE)
            then Responded (RedirectResponse (with_router self toggled)) (with_router self scope)
            else (case dflt of
                    None \<Rightarrow> not_found (with_router self scope)
                  | Some app \<Rightarrow> ASGI_call re app (with_router self scope)))"
proof -
  let ?s = "with_router self scope"
  have scan: "Router_scan re rs ?s None = Inr (NoFull None)"
    using assms(3) by (intro Router_scan_None) simp
  have tog: "?s\<lparr>scope_path := redirect_path ?s\<rparr> = with_router self toggled"
    by (simp add: with_router_path_commute assms(4))
  define found where
    "found = (\<exists>x\<in>set rs. \<exists>m c. matches re x toggled = Inr (m, c) \<and> m \<noteq> NONE)"
  have any': "Router_any_match re rs (?s\<lparr>scope_path := redirect_path ?s\<rparr>) = Inr found"
    if "scope_type scope = ''http''"
    using Router_any_match_iff [of rs re "with_router self toggled"] assms(5) that
    by (simp add: with_router_path_commute assms(4) found_def)
  have "ASGI_call re self scope =
           (if scope_type scope = ''http'' \<and> redirect_path scope \<noteq> [] \<and> found
            then Responded (RedirectResponse (with_router self toggled)) (with_router self scope)
            else (case dflt of
                    None \<Rightarrow> not_found (with_router self scope)
                  | Some app \<Rightarrow> ASGI_call re app (with_router self scope)))"
  proof (cases "scope_type scope = ''http''")
    case True
    show ?thesis
      unfolding assms(2) Router_call_unfold
      using scan any' [OF True] tog True unfolding assms(2)
      by (cases found) (simp_all add: Let_def)
  next
    case False
    then have ws: "scope_type scope = ''websocket''" using assms(1) by simp
    show ?thesis
      unfolding assms(2) Router_call_unfold
      using scan ws unfolding assms(2) by (simp add: Let_def)
  qed
  then have call: "ASGI_call re self scope =
           (if scope_type scope = ''http'' \<and> redirect_path scope \<noteq> []
               \<and> (\<exists>x\<in>set rs. \<exists>m c. matches re x toggled = Inr (m, c) \<and> m \<noteq> NONE)
            then Responded (RedirectResponse (with_router self toggled)) (with_router self scope)
            else (case dflt of
                    None \<Rightarrow> not_found (with_router self scope)
                  | Some app \<Rightarrow> ASGI_call re app (with_router self scope)))"
    unfolding found_def .
  have e: "redirect_path scope = [] \<longleftrightarrow>
      scope_path scope \<noteq> [] \<and> (\<forall>c\<in>set (scope_path scope). c = CHR ''/'')"
  proof (cases "endswith (scope_path scope) ''/''")
    case True
    then show ?thesis by (auto simp: redirect_path_def rstrip_eq_Nil endswith_slash)
  next
    case False
    then show ?thesis
      by (cases "scope_path scope" rule: rev_cases) (auto simp: redirect_path_def endswith_slash)
  qed
  have p: "\<forall>p k. scope_path scope = p @ replicate (Suc k) CHR ''/'' \<and> (p = [] \<or> last p \<noteq> CHR ''/'')
            \<longrightarrow> redirect_path scope = p"
    using redirect_path_strip_all [of scope] by blast
  have d: "scope_path scope = [] \<or> last (scope_path scope) \<noteq> CHR ''/''
            \<longrightarrow> redirect_path scope = scope_path scope @ ''/''"
    by (auto simp: redirect_path_def endswith_slash)
  show ?thesis using d e p call by blast
qed

lemma Route_matches_items_slash:
  "Route_matches regex_match route_items (request ''http'' ''/items/'' m) = Inr (NONE, empty_child)"
  by (simp add: Route_matches_def route_items_def request_def)

lemma request_path_update [simp]: "(request ty p m)\<lparr>scope_path := q\<rparr> = request ty q m"
  by (simp add: request_def)

lemma request_sel [simp]:
  "scope_type (request ty p m) = ty" "scope_path (request ty p m) = p"
  "scope_method (request ty p m) = m" "scope_has_app (request ty p m) = False"
  "scope_path_params (request ty p m) = None" "scope_root_path (request ty p m) = None"
  "scope_app_root_path (request ty p m) = None"
  by (simp_all add: request_def)

lemma redirect_path_items:
  "redirect_path (request ty ''/items/'' m) = ''/items''"
  "redirect_path (request ty ''/items//'' m) = ''/items''"
  "redirect_path (request ty ''/ws/'' m) = ''/ws''"
  by (simp_all add: redirect_path_def endswith_def rstrip_def)

text \<open>
  C2, on an example: with the route \<^verbatim>\<open>/items\<close> registered, a \<^verbatim>\<open>GET\<close> of \<^verbatim>\<open>/items/\<close> is
  answered by a redirect built from the scope with the path \<^verbatim>\<open>/items\<close>.
\<close>

theorem Router_redirect_slashes_witness:
  "ASGI_call regex_match (Router [RouteNode route_items] True None no_handlers)
     (request ''http'' ''/items/'' ''GET'')
   = Responded
       (RedirectResponse
          \<lparr>scope_type = ''http'', scope_path = ''/items'', scope_method = ''GET'',
           scope_headers = [], scope_path_params = None, scope_root_path = None,
           scope_app_root_path = None, scope_endpoint = None,
           scope_router = Some (Router [RouteNode route_items] True None no_handlers),
           scope_has_app = False\<rparr>)
       \<lparr>scope_type = ''http'', scope_path = ''/items/'', scope_method = ''GET'',
        scope_headers = [], scope_path_params = None, scope_root_path = None,
        scope_app_root_path = None, scope_endpoint = None,
        scope_router = Some (Router [RouteNode route_items] True None no_handlers),
        scope_has_app = False\<rparr>"
proof -
  have w: "with_router self (request ty p m) =
      \<lparr>scope_type = ty, scope_path = p, scope_method = m,
       scope_headers = [], scope_path_params = None, scope_root_path = None,
       scope_app_root_path = None, scope_endpoint = None,
       scope_router = Some self, scope_has_app = False\<rparr>" for self ty p m
    by (simp add: with_router_def request_def)
  show ?thesis
    using Router_redirect_slashes
      [where re = regex_match and scope = "request ''http'' ''/items/'' ''GET''"
         and self = "Router [RouteNode route_items] True None no_handlers"
         and rs = "[RouteNode route_items]" and dflt = None and ls = no_handlers
         and toggled = "request ''http'' ''/items'' ''GET''"]
    by (simp add: redirect_path_items Route_matches_items_slash Route_matches_items w)
qed

text \<open>
  C2 fails for a websocket request: with the websocket route \<^verbatim>\<open>/ws\<close> registered and
  \<open>redirect_slashes\<close> set, a websocket request for \<^verbatim>\<open>/ws/\<close> matches no node, the route
  matches the toggled path \<^verbatim>\<open>/ws\<close>, and yet the router answers with \<open>not_found\<close>, which
  closes the websocket. And "stripping the trailing slash" is stripping all of them: with
  the route \<^verbatim>\<open>/items\<close> registered, a \<^verbatim>\<open>GET\<close> of \<^verbatim>\<open>/items//\<close> is redirected to \<^verbatim>\<open>/items\<close>,
  although no node matches \<^verbatim>\<open>/items/\<close>, the path without its one trailing slash.
\<close>

theorem Router_redirect_slashes_counterexample:
  "WebSocketRoute_matches regex_match ws_route (request ''websocket'' ''/ws/'' []) = Inr (NONE, empty_child)
 \<and> redirect_path (request ''websocket'' ''/ws/'' []) = ''/ws''
 \<and> WebSocketRoute_matches regex_match ws_route (request ''websocket'' ''/ws'' []) = Inr (FULL, child_of Echo)
 \<and> ASGI_call regex_match (Router [WebSocketRouteNode ws_route] True None no_handlers)
      (request ''websocket'' ''/ws/'' [])
     = WebSocketClose
 \<and> Route_matches regex_match route_items (request ''http'' ''/items//'' ''GET'') = Inr (NONE, empty_child)
 \<and> Route_matches regex_match route_items (request ''http'' ''/items/'' ''GET'') = Inr (NONE, empty_child)
 \<and> ASGI_call regex_match (Router [RouteNode route_items] True None no_handlers)
      (request ''http'' ''/items//'' ''GET'')
     = Responded
         (RedirectResponse
            \<lparr>scope_type = ''http'', scope_path = ''/items'', scope_method = ''GET'',
             scope_headers = [], scope_path_params = None, scope_root_path = None,
             scope_app_root_path = None, scope_endpoint = None,
             scope_router = Some (Router [RouteNode route_items] True None no_handlers),
             scope_has_app = False\<rparr>)
         \<lparr>scope_type = ''http'', scope_path = ''/items//'', scope_method = ''GET'',
          scope_headers = [], scope_path_params = None, scope_root_path = None,
          scope_app_root_path = None, scope_endpoint = None,
          scope_router = Some (Router [RouteNode route_items] True None no_handlers),
          scope_has_app = False\<rparr>"
proof -
  have ws: "WebSocketRoute_matches regex_match ws_route (request ''websocket'' ''/ws/'' []) = Inr (NONE, empty_child)
     \<and> redirect_path (request ''websocket'' ''/ws/'' []) = ''/ws''
     \<and> WebSocketRoute_matches regex_match ws_route (request ''websocket'' ''/ws'' []) = Inr (FULL, child_of Echo)
     \<and> ASGI_call regex_match (Router [WebSocketRouteNode ws_route] True None no_handlers)
          (request ''websocket'' ''/ws/'' [])
         = WebSocketClose"
    by (simp add: WebSocketRoute_matches_def ws_route_def redirect_path_items
        get_path_params_def child_of_def not_found_def with_router_def)
  have m: "Route_matches regex_match route_items (request ''http'' ''/items//'' ''GET'') = Inr (NONE, empty_child)"
    by (simp add: Route_matches_def route_items_def)
  have r: "ASGI_call regex_match (Router [RouteNode route_items] True None no_handlers)
      (request ''http'' ''/items//'' ''GET'')
     = Responded
         (RedirectResponse
            \<lparr>scope_type = ''http'', scope_path = ''/items'', scope_method = ''GET'',
             scope_headers = [], scope_path_params = None, scope_root_path = None,
             scope_app_root_path = None, scope_endpoint = None,
             scope_router = Some (Router [RouteNode route_items] True None no_handlers),
             scope_has_app = False\<rparr>)
         \<lparr>scope_type = ''http'', scope_path = ''/items//'', scope_method = ''GET'',
          scope_headers = [], scope_path_params = None, scope_root_path = None,
          scope_app_root_path = None, scope_endpoint = None,
          scope_router = Some (Router [RouteNode route_items] True None no_handlers),
          scope_has_app = False\<rparr>"
    by (simp add: Route_matches_def route_items_def redirect_path_def endswith_def rstrip_def
        with_router_def request_def get_path_params_def method_rejected_def empty_child_def)
  show ?thesis using ws m r Route_matches_items_slash by blast
qed

subsection \<open>Method not allowed\<close>

lemma matches_PARTIAL_is_route:
  assumes "matches re x scope = Inr (PARTIAL, c)"
  shows "\<exists>r. x = RouteNode r \<and> method_rejected (route_methods r) (scope_method scope)"
proof (cases x)
  case (RouteNode r)
  then show ?thesis
    using assms
    by (auto simp: Route_matches_def Let_def split: if_splits option.splits sum.splits)
next
  case (WebSocketRouteNode r)
  then show ?thesis
    using assms
    by (auto simp: WebSocketRoute_matches_def Let_def split: if_splits option.splits sum.splits)
next
  case (Mount p app n rx fmt cvs)
  then show ?thesis
    using assms
    by (auto simp: Mount_matches_def Let_def
        split: if_splits option.splits sum.splits pyval.splits)
next
  case (Host h app n rx fmt cvs)
  then show ?thesis
    using assms
    by (auto simp: Host_matches_def Let_def split: if_splits option.splits sum.splits)
qed

lemma Router_scan_first_partial:
  assumes "\<forall>x\<in>set rs. \<exists>m c. matches re x scope = Inr (m, c) \<and> m \<noteq> FULL"
    and "\<exists>x\<in>set rs. \<exists>c. matches re x scope = Inr (PARTIAL, c)"
  shows "\<exists>x c. Router_scan re rs scope None = Inr (NoFull (Some (x, c)))
           \<and> matches re x scope = Inr (PARTIAL, c)"
  using assms
proof (induction rs)
  case Nil
  then show ?case by simp
next
  case (Cons y rs)
  then obtain m c where m: "matches re y scope = Inr (m, c)" "m \<noteq> FULL" by auto
  show ?case
  proof (cases "m = PARTIAL")
    case True
    have "Router_scan re rs scope (Some (y, c)) = Inr (NoFull (Some (y, c)))"
      using Cons.prems(1) by (intro Router_scan_keeps_partial) simp
    then show ?thesis using m True by auto
  next
    case False
    then have "\<exists>x\<in>set rs. \<exists>c. matches re x scope = Inr (PARTIAL, c)"
      using Cons.prems(2) m by auto
    moreover have "\<forall>x\<in>set rs. \<exists>m c. matches re x scope = Inr (m, c) \<and> m \<noteq> FULL"
      using Cons.prems(1) by simp
    ultimately obtain x c' where "Router_scan re rs scope None = Inr (NoFull (Some (x, c')))"
      "matches re x scope = Inr (PARTIAL, c')"
      using Cons.IH by blast
    then show ?thesis using m False by auto
  qed
qed

lemma scope_update_keeps [simp]:
  "scope_method (scope_update scope c) = scope_method scope"
  "scope_has_app (scope_update scope c) = scope_has_app scope"
  "scope_type (scope_update scope c) = scope_type scope"
  by (simp_all add: scope_update_def)

lemma with_router_keeps [simp]:
  "scope_method (with_router self scope) = scope_method scope"
  "scope_has_app (with_router self scope) = scope_has_app scope"
  "scope_path (with_router self scope) = scope_path scope"
  by (simp_all add: with_router_def)

lemma Router_call_partial:
  assumes "scope_type scope = ''http''"
    and "\<forall>x\<in>set rs. \<exists>m c. matches re x scope = Inr (m, c) \<and> m \<noteq> FULL"
    and "\<exists>x\<in>set rs. \<exists>c. matches re x scope = Inr (PARTIAL, c)"
  shows "\<exists>s. ASGI_call re (Router rs redirect dflt ls) scope =
           (if scope_has_app scope then Raised (HTTPException 405)
            else Responded (PlainTextResponse ''Method Not Allowed'' 405) s)"
proof -
  let ?self = "Router rs redirect dflt ls"
  let ?s = "with_router ?self scope"
  from Router_scan_first_partial [of rs re ?s] assms(2,3)
  obtain x c where scan: "Router_scan re rs ?s None = Inr (NoFull (Some (x, c)))"
    and x: "matches re x scope = Inr (PARTIAL, c)"
    by auto
  from matches_PARTIAL_is_route [OF x] obtain r where
    r: "x = RouteNode r" "method_rejected (route_methods r) (scope_method scope)"
    by blast
  have "ASGI_call re ?self scope = Route_call r (scope_update ?s c)"
    unfolding Router_call_unfold using scan assms(1) r(1) by (simp add: Let_def)
  then show ?thesis
    using r(2) by (auto simp: Route_call_def)
qed




subsection \<open>Lifespan\<close>

lemma run_handlers_all:
  "run_handlers call hs w = (w1, called, None) \<Longrightarrow> called = hs"
proof (induction hs arbitrary: w w1 called)
  case Nil
  then show ?case by simp
next
  case (Cons h hs)
  obtain wa r where c: "call h w = (wa, r)" by (cases "call h w")
  with Cons.prems have r: "r = None" by (auto split: option.splits prod.splits)
  obtain wb cb rb where rest: "run_handlers call hs wa = (wb, cb, rb)"
    by (cases "run_handlers call hs wa")
  with Cons.prems c r have "rb = None" "called = h # cb" by auto
  with Cons.IH rest show ?case by auto
qed

lemma run_handlers_first_failure:
  assumes "run_handlers call pre w = (w1, pre, None)" and "call h w1 = (w2, Some e)"
  shows "run_handlers call (pre @ h # post) w = (w2, pre @ [h], Some e)"
  using assms
proof (induction pre arbitrary: w)
  case Nil
  then show ?case by simp
next
  case (Cons a pre)
  obtain wa r where c: "call a w = (wa, r)" by (cases "call a w")
  with Cons.prems(1) have r: "r = None" by (auto split: option.splits prod.splits)
  obtain wb cb rb where rest: "run_handlers call pre wa = (wb, cb, rb)"
    by (cases "run_handlers call pre wa")
  with Cons.prems(1) c r have "wb = w1" "cb = pre" "rb = None" by auto
  with rest Cons.IH [of wa] Cons.prems(2) have
    "run_handlers call (pre @ h # post) wa = (w2, pre @ [h], Some e)" by simp
  with c r show ?case by simp
qed

lemma Lifespan_call_startup_failed:
  assumes "message_type m1 = ''lifespan.startup''"
    and "run_handlers call (startup_handlers self) w = (w1, started, Some e)"
  shows "Lifespan_call call format_exc self (m1 # incoming1) w =
     \<lparr>world = w1, startup_called = started, shutdown_called = [],
      sent = [\<lparr>message_type = ''lifespan.startup.failed'', message_text = Some (format_exc e)\<rparr>],
      ending = Handler_raised e\<rparr>"
  using assms by (simp add: Lifespan_call_def)

lemma Lifespan_call_startup_complete:
  assumes "message_type m1 = ''lifespan.startup''"
    and "run_handlers call (startup_handlers self) w = (w1, started, None)"
  shows "startup_called (Lifespan_call call format_exc self (m1 # incoming1) w) = started"
    and "take 1 (sent (Lifespan_call call format_exc self (m1 # incoming1) w)) =
           [\<lparr>message_type = ''lifespan.startup.complete'', message_text = None\<rparr>]"
proof -
  obtain w2 stopped r where s: "run_handlers call (shutdown_handlers self) w1 = (w2, stopped, r)"
    by (cases "run_handlers call (shutdown_handlers self) w1")
  show "startup_called (Lifespan_call call format_exc self (m1 # incoming1) w) = started"
    using assms s by (cases incoming1; cases r) (simp_all add: Lifespan_call_def Let_def)
  show "take 1 (sent (Lifespan_call call format_exc self (m1 # incoming1) w)) =
           [\<lparr>message_type = ''lifespan.startup.complete'', message_text = None\<rparr>]"
    using assms s by (cases incoming1; cases r) (simp_all add: Lifespan_call_def Let_def)
qed

lemma Lifespan_call_shutdown_complete:
  assumes "message_type m1 = ''lifespan.startup''"
    and "run_handlers call (startup_handlers self) w = (w1, started, None)"
    and "message_type m2 = ''lifespan.shutdown''"
    and "run_handlers call (shutdown_handlers self) w1 = (w2, stopped, None)"
  shows "Lifespan_call call format_exc self (m1 # m2 # incoming2) w =
     \<lparr>world = w2, startup_called = started, shutdown_called = stopped,
      sent = [\<lparr>message_type = ''lifespan.startup.complete'', message_text = None\<rparr>,
              \<lparr>message_type = ''lifespan.shutdown.complete'', message_text = None\<rparr>],
      ending = Returned\<rparr>"
  using assms by (simp add: Lifespan_call_def Let_def)




subsection \<open>Reverse lookup through a mount\<close>

lemma url_path_for_first_found:
  assumes "\<forall>x\<in>set pre. url_path_for x name params = Inl NoMatchFound"
    and "url_path_for c name params = Inr url"
  shows "url_path_for_first (pre @ c # post) name params = Inr url"
  using assms by (induction pre) simp_all

lemma url_path_for_first_none:
  assumes "\<forall>x\<in>set rs. url_path_for x name params = Inl NoMatchFound"
  shows "url_path_for_first rs name params = Inl NoMatchFound"
  using assms by (induction rs) simp_all

lemma finditer_api: "finditer [] ''/api/{path:path}'' = ([(''/api/'', ''path'', Some '':path'')], [])"
  by (simp add: PARAM_REGEX_match_def take_ident_def ident_start_def ident_char_def)

lemma compile_path_api:
  "compile_path str_path_table ''/api/{path:path}'' =
     Inr ([Lit ''/api/'', Group ''path'' PathConvertor, Lit []], ''/api/{path}'',
          [(''path'', PathConvertor)])"
  by (simp add: compile_path_def finditer_api str_path_table_def lstrip_def Let_def del: finditer.simps)

lemma Mount_init_api:
  "Mount_init str_path_table ''/api'' None (Some [RouteNode route_items_post]) (Some ''api'') =
     Inr api_mount"
  by (simp add: Mount_init_def rstrip_def compile_path_api Router_init_def api_mount_def
      no_handlers_def)

text \<open>
  The delegated branch of \<^verbatim>\<open>Mount.url_path_for\<close>. A mount with a name, asked for
  \<^verbatim>\<open>name:child\<close>, calls \<open>replace_params\<close> on its own format (with the empty string for
  \<^verbatim>\<open>path\<close>), which gives the prefix and the parameters left over (a \<^verbatim>\<open>path\<close> parameter of
  the caller is put back among them). It asks the nodes of the application it wraps, in
  their order, for \<^verbatim>\<open>child\<close> with the parameters left over: the first that answers gives
  the result, its path after the prefix without trailing slashes, with its protocol.
  When every node raises \<open>NoMatchFound\<close>, so does the mount.
\<close>

lemma Mount_url_path_for_delegates:
  assumes "m = Mount p app (Some mount_name') rx fmt cvs"
    and "replace_params fmt cvs (dict_set path_params ''path'' (PyStr [])) = Inr (path_prefix, remaining0)"
    and "remaining_params =
           (case dict_get path_params ''path'' of
              None \<Rightarrow> remaining0
            | Some v \<Rightarrow> dict_set remaining0 ''path'' v)"
  shows "(\<forall>pre c post url.
            routes_or_empty app = pre @ c # post
            \<and> (\<forall>x\<in>set pre. url_path_for x child remaining_params = Inl NoMatchFound)
            \<and> url_path_for c child remaining_params = Inr url \<longrightarrow>
            url_path_for m (mount_name' @ '':'' @ child) path_params =
              Inr \<lparr>url_path = rstrip CHR ''/'' path_prefix @ url_path url,
                   url_protocol = url_protocol url, url_host = []\<rparr>)
       \<and> ((\<forall>x\<in>set (routes_or_empty app). url_path_for x child remaining_params = Inl NoMatchFound) \<longrightarrow>
            url_path_for m (mount_name' @ '':'' @ child) path_params = Inl NoMatchFound)"
proof -
  let ?name = "mount_name' @ '':'' @ child"
  have unf: "url_path_for m ?name path_params =
      (case url_path_for_first (routes_or_empty app) child remaining_params of
         Inl e \<Rightarrow> Inl e
       | Inr url \<Rightarrow>
           Inr \<lparr>url_path = rstrip CHR ''/'' path_prefix @ url_path url,
                url_protocol = url_protocol url, url_host = []\<rparr>)"
    unfolding assms(1) using assms(2)
    by (simp add: Let_def assms(3) startswith_iff)
  show ?thesis
    unfolding unf
    by (auto simp: url_path_for_first_found url_path_for_first_none)
qed

lemma finditer_pair_mount:
  "finditer [] ''/{a}/{b}/{path:path}'' =
     ([(''/'', ''a'', None), (''/'', ''b'', None), (''/'', ''path'', Some '':path'')], [])"
  by (simp add: PARAM_REGEX_match_def take_ident_def ident_start_def ident_char_def)

lemma Mount_init_pair:
  "Mount_init str_path_table ''/{a}/{b}'' None (Some [RouteNode route_items_post]) (Some ''m'') =
     Inr pair_mount"
  by (simp add: Mount_init_def rstrip_def compile_path_def finditer_pair_mount str_path_table_def
      lstrip_def Let_def Router_init_def pair_mount_def no_handlers_def del: finditer.simps)

lemma url_path_for_items:
  "Route_url_path_for route_items_post ''items'' [] =
     Inr \<lparr>url_path = ''/items'', url_protocol = ''http'', url_host = []\<rparr>"
  "Route_url_path_for route_items_post ''nothing'' [] = Inl NoMatchFound"
  by (simp_all add: Route_url_path_for_def route_items_post_def dict_keys_def replace_params_def)

lemma routes_or_empty_Router [simp]: "routes_or_empty (Router rs redirect dflt ls) = rs"
  by (simp add: routes_or_empty_def app_routes_def)

text \<open>
  C7 on the example of the spec, on a mount with parameters in its prefix, and on the
  input where the code goes wrong. The mount \<^verbatim>\<open>/api\<close> named \<^verbatim>\<open>api\<close> around the route
  \<^verbatim>\<open>/items\<close> named \<^verbatim>\<open>items\<close> resolves \<^verbatim>\<open>api:items\<close> to \<^verbatim>\<open>/api/items\<close>, and raises
  \<open>NoMatchFound\<close> for \<^verbatim>\<open>api:nothing\<close>. The mount \<^verbatim>\<open>/{a}/{b}\<close> named \<^verbatim>\<open>m\<close> around the same
  route resolves \<^verbatim>\<open>url_path_for("m:items", a="u", b="v")\<close> to \<^verbatim>\<open>/u/v/items\<close>. But
  \<^verbatim>\<open>url_path_for("m:items", a="{b}", b="x")\<close> returns \<^verbatim>\<open>/x/x/items\<close>: the value of \<^verbatim>\<open>a\<close>,
  once in the prefix, is replaced as if it were the placeholder of \<^verbatim>\<open>b\<close>. The prefix
  template with each parameter in its own place is \<^verbatim>\<open>/{b}/x\<close>.
\<close>

theorem Mount_url_path_for_replaces_value:
  "Mount_init str_path_table ''/api'' None (Some [RouteNode route_items_post]) (Some ''api'') =
     Inr api_mount
 \<and> url_path_for api_mount ''api:items'' [] =
     Inr \<lparr>url_path = ''/api/items'', url_protocol = ''http'', url_host = []\<rparr>
 \<and> url_path_for api_mount ''api:nothing'' [] = Inl NoMatchFound
 \<and> Mount_init str_path_table ''/{a}/{b}'' None (Some [RouteNode route_items_post]) (Some ''m'') =
     Inr pair_mount
 \<and> url_path_for pair_mount ''m:items'' [(''a'', PyStr ''u''), (''b'', PyStr ''v'')] =
     Inr \<lparr>url_path = ''/u/v/items'', url_protocol = ''http'', url_host = []\<rparr>
 \<and> url_path_for pair_mount ''m:items'' [(''a'', PyStr ''{b}''), (''b'', PyStr ''x'')] =
     Inr \<lparr>url_path = ''/x/x/items'', url_protocol = ''http'', url_host = []\<rparr>
 \<and> fill (mount_path_regex pair_mount) [''{b}'', ''x'', []] = ''/{b}/x/''"
proof -
  have a: "url_path_for api_mount ''api:items'' [] =
     Inr \<lparr>url_path = ''/api/items'', url_protocol = ''http'', url_host = []\<rparr>"
    by (simp add: api_mount_def url_path_for_items replace_params_def replace_def dict_get_def
        dict_pop_def PathConvertor_def py_str_def startswith_def rstrip_def Let_def)
  have b: "url_path_for api_mount ''api:nothing'' [] = Inl NoMatchFound"
    by (simp add: api_mount_def url_path_for_items replace_params_def replace_def dict_get_def
        dict_pop_def PathConvertor_def py_str_def startswith_def rstrip_def Let_def)
  have c: "url_path_for pair_mount ''m:items'' [(''a'', PyStr ''u''), (''b'', PyStr ''v'')] =
     Inr \<lparr>url_path = ''/u/v/items'', url_protocol = ''http'', url_host = []\<rparr>"
    by (simp add: pair_mount_def url_path_for_items replace_params_def replace_def dict_get_def
        dict_pop_def PathConvertor_def StringConvertor_def py_str_def startswith_def rstrip_def
        Let_def)
  have d: "url_path_for pair_mount ''m:items'' [(''a'', PyStr ''{b}''), (''b'', PyStr ''x'')] =
     Inr \<lparr>url_path = ''/x/x/items'', url_protocol = ''http'', url_host = []\<rparr>"
    by (simp add: pair_mount_def url_path_for_items replace_params_def replace_def dict_get_def
        dict_pop_def PathConvertor_def StringConvertor_def py_str_def startswith_def rstrip_def
        Let_def)
  have e: "fill (mount_path_regex pair_mount) [''{b}'', ''x'', []] = ''/{b}/x/''"
    by (simp add: pair_mount_def)
  show ?thesis using a b c d e Mount_init_api Mount_init_pair by blast
qed

text \<open>
  C7, the same input: the path returned is not the prefix template with each value in
  its place (without its trailing slash), followed by the path of the route.
\<close>

theorem Mount_url_path_for_replaces_value_witness:
  "url_path_for pair_mount ''m:items'' [(''a'', PyStr ''{b}''), (''b'', PyStr ''x'')] \<noteq>
     Inr \<lparr>url_path =
            rstrip CHR ''/'' (fill (mount_path_regex pair_mount) [''{b}'', ''x'', []]) @ ''/items'',
          url_protocol = ''http'', url_host = []\<rparr>"
  using Mount_url_path_for_replaces_value by (simp add: rstrip_def)

subsection \<open>Placeholders of a template\<close>

lemma ident_char_simps [simp]:
  "\<not> ident_char CHR ''/''" "\<not> ident_char CHR ''{''" "\<not> ident_char CHR ''}''"
  "\<not> ident_char CHR '':''" "\<not> ident_start CHR ''/''"
  by (simp_all add: ident_char_def ident_start_def)

lemma ident_start_char: "ident_start c \<Longrightarrow> ident_char c"
  by (simp add: ident_char_def)

lemma take_ident_Some:
  assumes "take_ident s = Some (n, r)"
  shows "s = n @ r" and "\<forall>c\<in>set n. ident_char c" and "n \<noteq> []"
    and "r = [] \<or> \<not> ident_char (hd r)"
proof -
  from assms obtain c cs where s: "s = c # cs" "ident_start c"
    "n = c # takeWhile ident_char cs" "r = dropWhile ident_char cs"
    by (auto simp: take_ident_def split: list.splits if_splits)
  show "s = n @ r" using s by simp
  show "\<forall>c\<in>set n. ident_char c" using s by (auto simp: ident_start_char dest: set_takeWhileD)
  show "n \<noteq> []" using s by simp
  show "r = [] \<or> \<not> ident_char (hd r)" using s(4) hd_dropWhile [of ident_char cs] by auto
qed

lemma take_ident_append_slash:
  "take_ident (s @ CHR ''/'' # t) =
     (case take_ident s of None \<Rightarrow> None | Some (n, r) \<Rightarrow> Some (n, r @ CHR ''/'' # t))"
proof (cases s)
  case Nil
  then show ?thesis by (simp add: take_ident_def)
next
  case (Cons c cs)
  have "takeWhile ident_char (cs @ CHR ''/'' # t) = takeWhile ident_char cs"
  proof (cases "\<forall>x\<in>set cs. ident_char x")
    case True
    have a: "takeWhile ident_char (cs @ CHR ''/'' # t) = cs @ takeWhile ident_char (CHR ''/'' # t)"
      using True by (intro takeWhile_append2) auto
    have b: "takeWhile ident_char cs = cs" using True by simp
    show ?thesis unfolding a b by simp
  next
    case False
    then show ?thesis by (auto simp: takeWhile_append1)
  qed
  moreover have "dropWhile ident_char (cs @ CHR ''/'' # t) = dropWhile ident_char cs @ CHR ''/'' # t"
    by (cases "\<forall>x\<in>set cs. ident_char x") (auto simp: dropWhile_append1 dropWhile_append2)
  ultimately show ?thesis using Cons by (simp add: take_ident_def)
qed

lemma PARAM_REGEX_match_Some:
  assumes "PARAM_REGEX_match s = Some ((n, ty), r)"
  shows "\<exists>t. s = CHR ''{'' # n @ t @ CHR ''}'' # r \<and> (\<forall>c\<in>set n. ident_char c) \<and> n \<noteq> []
           \<and> (ty = None \<and> t = [] \<or> (\<exists>i. ty = Some (CHR '':'' # i) \<and> t = CHR '':'' # i \<and> (\<forall>c\<in>set i. ident_char c)))"
proof -
  from assms obtain s1 where s: "s = CHR ''{'' # s1"
    by (auto simp: PARAM_REGEX_match_def split: list.splits if_splits)
  from assms s obtain n1 r1 where t1: "take_ident s1 = Some (n1, r1)"
    by (auto simp: PARAM_REGEX_match_def split: option.splits)
  note i1 = take_ident_Some [OF t1]
  from assms s t1 obtain d r2 where r1: "r1 = d # r2"
    by (auto simp: PARAM_REGEX_match_def split: list.splits)
  show ?thesis
  proof (cases "d = CHR ''}''")
    case True
    then have "n = n1" "ty = None" "r = r2"
      using assms s t1 r1 by (auto simp: PARAM_REGEX_match_def)
    then show ?thesis using i1 s r1 True by auto
  next
    case False
    then have d: "d = CHR '':''"
      using assms s t1 r1 by (auto simp: PARAM_REGEX_match_def split: if_splits)
    from assms s t1 r1 d obtain i r3 where t2: "take_ident r2 = Some (i, r3)"
      by (auto simp: PARAM_REGEX_match_def split: option.splits)
    note i2 = take_ident_Some [OF t2]
    from assms s t1 r1 d t2 have e: "r3 = CHR ''}'' # r" "n = n1" "ty = Some (CHR '':'' # i)"
      by (auto simp: PARAM_REGEX_match_def split: list.splits if_splits)
    show ?thesis
      using i1 i2 s r1 d e by auto
  qed
qed

lemma PARAM_REGEX_match_append_slash:
  "PARAM_REGEX_match (s @ CHR ''/'' # t) =
     (case PARAM_REGEX_match s of None \<Rightarrow> None | Some (g, r) \<Rightarrow> Some (g, r @ CHR ''/'' # t))"
proof (cases s)
  case Nil
  then show ?thesis by (simp add: PARAM_REGEX_match_def)
next
  case (Cons c s1)
  show ?thesis
  proof (cases "take_ident s1")
    case None
    then show ?thesis using Cons by (simp add: PARAM_REGEX_match_def take_ident_append_slash)
  next
    case (Some a)
    obtain n1 r1 where a: "a = (n1, r1)" by (cases a)
    show ?thesis
    proof (cases r1)
      case Nil
      then show ?thesis
        using Cons Some a by (simp add: PARAM_REGEX_match_def take_ident_append_slash)
    next
      case r1: (Cons d r2)
      show ?thesis
      proof (cases "take_ident r2")
        case None
        then show ?thesis
          using Cons Some a r1 by (simp add: PARAM_REGEX_match_def take_ident_append_slash)
      next
        case s2: (Some b)
        obtain i r3 where b: "b = (i, r3)" by (cases b)
        show ?thesis
          using Cons Some a r1 s2 b
          by (cases r3) (simp_all add: PARAM_REGEX_match_def take_ident_append_slash)
      qed
    qed
  qed
qed

lemma PARAM_REGEX_match_path:
  "PARAM_REGEX_match ''{path:path}'' = Some ((''path'', Some '':path''), [])"
  by (simp add: PARAM_REGEX_match_def take_ident_def ident_start_def ident_char_def)

lemma finditer_append_path:
  "finditer lit s = (ms, l) \<Longrightarrow>
   finditer lit (s @ ''/{path:path}'') = (ms @ [(l @ ''/'', ''path'', Some '':path'')], [])"
proof (induction lit s arbitrary: ms l rule: finditer.induct)
  case (1 lit)
  have "PARAM_REGEX_match ''/{path:path}'' = None" by (simp add: PARAM_REGEX_match_def)
  then show ?case using 1 by (simp add: PARAM_REGEX_match_path)
next
  case (2 lit c cs)
  show ?case
  proof (cases "PARAM_REGEX_match (c # cs)")
    case None
    then have n: "PARAM_REGEX_match (c # cs @ ''/{path:path}'') = None"
      using PARAM_REGEX_match_append_slash [of "c # cs" "''{path:path}''"] by simp
    have "finditer (c # lit) cs = (ms, l)" using 2(3) None by simp
    from 2(1) [OF None this]
    have "finditer (c # lit) (cs @ ''/{path:path}'') = (ms @ [(l @ ''/'', ''path'', Some '':path'')], [])" .
    then show ?thesis using n by simp
  next
    case (Some a)
    obtain n ty rest where a: "a = ((n, ty), rest)" by (cases a) auto
    obtain ms' l' where f: "finditer [] rest = (ms', l')" by (cases "finditer [] rest")
    have m: "PARAM_REGEX_match (c # cs @ ''/{path:path}'') = Some ((n, ty), rest @ ''/{path:path}'')"
      using Some a PARAM_REGEX_match_append_slash [of "c # cs" "''{path:path}''"] by simp
    have r: "ms = (rev lit, n, ty) # ms'" "l = l'" using 2(3) Some a f by simp_all
    have "finditer [] (rest @ ''/{path:path}'') = (ms' @ [(l' @ ''/'', ''path'', Some '':path'')], [])"
      using 2(2) [OF Some a [symmetric] refl f] .
    then show ?thesis using m r by simp
  qed
qed

subsection \<open>The regex of a mount\<close>

lemma compile_loop_append:
  "compile_loop tbl (ms @ ns) rx fmt cvs =
     (case compile_loop tbl ms rx fmt cvs of
        Inl e \<Rightarrow> Inl e
      | Inr (rx', fmt', cvs') \<Rightarrow> compile_loop tbl ns rx' fmt' cvs')"
proof (induction ms arbitrary: rx fmt cvs)
  case Nil
  then show ?case by simp
next
  case (Cons m ms)
  obtain lit n ty where m: "m = (lit, n, ty)" by (cases m)
  show ?case using Cons.IH by (simp add: m Let_def split: option.splits)
qed

lemma lits_of_append: "lits_of (xs @ ys) = lits_of xs @ lits_of ys"
  by (induction xs rule: lits_of.induct) simp_all

lemma compile_loop_lits:
  "compile_loop tbl ms rx fmt cvs = Inr (rx', fmt', cvs') \<Longrightarrow>
   lits_of rx' = lits_of rx @ map fst ms"
proof (induction ms arbitrary: rx fmt cvs)
  case Nil
  then show ?case by simp
next
  case (Cons m ms)
  obtain lit n ty where m: "m = (lit, n, ty)" by (cases m)
  from Cons.prems obtain cv where
    "compile_loop tbl ms (rx @ [Lit lit, Group n cv]) (fmt @ lit @ ''{'' @ n @ ''}'')
       (dict_set cvs n cv) = Inr (rx', fmt', cvs')"
    by (auto simp: m Let_def split: option.splits)
  from Cons.IH [OF this] show ?case by (simp add: m lits_of_append)
qed

text \<open>
  The regex of \<open>path @ "/{path:path}"\<close> is the regex of \<open>path\<close> with its last literal
  extended by a slash, followed by the group \<^verbatim>\<open>path\<close>.
\<close>

lemma compile_path_mount:
  assumes "compile_path tbl (p @ ''/{path:path}'') = Inr (rx, fmt, cvs)"
  shows "\<exists>segs l cv. rx = segs @ [Lit (l @ ''/''), Group ''path'' cv, Lit []]
           \<and> tbl ''path'' = Some cv
           \<and> l = snd (finditer [] p)
           \<and> lits_of segs = map fst (fst (finditer [] p))"
proof -
  obtain ms l where f: "finditer [] p = (ms, l)" by (cases "finditer [] p")
  have f': "finditer [] (p @ ''/{path:path}'') = (ms @ [(l @ ''/'', ''path'', Some '':path'')], [])"
    by (rule finditer_append_path [OF f])
  from assms f' obtain rx0 fmt0 cvs0 where
    loop: "compile_loop tbl (ms @ [(l @ ''/'', ''path'', Some '':path'')]) [] [] [] = Inr (rx0, fmt0, cvs0)"
    and r: "rx = rx0 @ [Lit []]"
    by (auto simp: compile_path_def split: sum.splits if_splits)
  from loop obtain rx1 fmt1 cvs1 where
    l1: "compile_loop tbl ms [] [] [] = Inr (rx1, fmt1, cvs1)"
    and l2: "compile_loop tbl [(l @ ''/'', ''path'', Some '':path'')] rx1 fmt1 cvs1 = Inr (rx0, fmt0, cvs0)"
    by (auto simp: compile_loop_append split: sum.splits)
  from l2 obtain cv where cv: "tbl ''path'' = Some cv"
    and rx0: "rx0 = rx1 @ [Lit (l @ ''/''), Group ''path'' cv]"
    by (auto simp: Let_def lstrip_def split: option.splits)
  have "lits_of rx1 = map fst ms" using compile_loop_lits [OF l1] by simp
  then show ?thesis using r rx0 cv f by auto
qed

lemma try_down_top:
  assumes "f hi = Some r" and "lo \<le> hi"
  shows "try_down f lo hi = Some r"
  using assms by (cases hi) auto

lemma takeWhile_True [simp]: "takeWhile (\<lambda>c. True) s = s"
  by (induction s) simp_all

lemma regex_match_path_group:
  assumes "regex_class cv = (\<lambda>c. True)" and "regex_least cv \<le> length s"
  shows "regex_match [Group ''path'' cv, Lit []] s = Some [(''path'', s)]"
proof -
  have "try_down
          (\<lambda>k. case regex_match [Lit []] (drop k s) of
                 None \<Rightarrow> None
               | Some groups \<Rightarrow> Some ((''path'', take k s) # groups))
          (regex_least cv) (length s) = Some [(''path'', s)]"
    by (rule try_down_top) (simp_all add: assms(2))
  then show ?thesis by (simp add: assms(1))
qed

lemma regex_match_mount:
  assumes "regex_match (segs @ [Lit (l @ ''/''), Group ''path'' cv, Lit []]) s = Some groups"
    and "regex_class cv = (\<lambda>c. True)"
  shows "\<exists>matched rest gs. s = matched @ ''/'' @ rest \<and> groups = gs @ [(''path'', rest)]"
  using assms(1)
proof (induction segs arbitrary: s groups rule: group_names.induct)
  case 1
  then have lm: "lit_matches (l @ ''/'') s"
    and m0: "regex_match [Group ''path'' cv, Lit []] (drop (length (l @ ''/'')) s) = Some groups"
    by (auto split: if_splits)
  from lit_matches_slash [OF lm] obtain a s2 where s: "s = a @ ''/'' @ s2" and a: "length a = length l"
    by blast
  have m: "regex_match [Group ''path'' cv, Lit []] s2 = Some groups"
    using m0 s a by simp
  from m have "\<exists>k. regex_least cv \<le> k \<and> k \<le> length (takeWhile (regex_class cv) s2)"
    by (auto dest!: try_down_Some)
  then have "regex_least cv \<le> length s2" using assms(2) by (auto intro: order_trans)
  from regex_match_path_group [OF assms(2) this] m have "groups = [(''path'', s2)]" by simp
  then show ?case using s by (intro exI [of _ a] exI [of _ s2] exI [of _ "[]"]) simp
next
  case (2 l' segs)
  then have lm: "lit_matches l' s"
    and m0: "regex_match (segs @ [Lit (l @ ''/''), Group ''path'' cv, Lit []]) (drop (length l') s)
               = Some groups"
    by (auto split: if_splits)
  from lit_matches_split [OF lm] obtain a s' where s: "s = a @ s'" and a: "length a = length l'"
    by blast
  have m: "regex_match (segs @ [Lit (l @ ''/''), Group ''path'' cv, Lit []]) s' = Some groups"
    using m0 s a by simp
  from 2(1) [OF m] obtain matched rest gs where "s' = matched @ ''/'' @ rest"
    "groups = gs @ [(''path'', rest)]" by blast
  then show ?case using s by (intro exI [of _ "a @ matched"] exI [of _ rest] exI [of _ gs]) simp
next
  case (3 n cv' segs)
  from 3(2) obtain k g where
    m: "regex_match (segs @ [Lit (l @ ''/''), Group ''path'' cv, Lit []]) (drop k s) = Some g"
    and g: "groups = (n, take k s) # g"
    by (auto dest!: try_down_Some split: option.splits)
  from 3(1) [OF m] obtain matched rest gs where d: "drop k s = matched @ ''/'' @ rest"
    "g = gs @ [(''path'', rest)]" by blast
  have "s = (take k s @ matched) @ ''/'' @ rest"
    using d(1) by (metis append.assoc append_take_drop_id)
  then show ?case using g d(2)
    by (intro exI [of _ "take k s @ matched"] exI [of _ rest] exI [of _ "(n, take k s) # gs"]) simp
qed

lemma Mount_init_fields:
  assumes "Mount_init tbl path0 app0 rs0 name = Inr m"
  shows "\<exists>rx fmt cvs.
           m = Mount (rstrip CHR ''/'' path0)
                 (case app0 of Some a \<Rightarrow> a | None \<Rightarrow> Router_init rs0 True None [] []) name rx fmt cvs
           \<and> compile_path tbl (rstrip CHR ''/'' path0 @ ''/{path:path}'') = Inr (rx, fmt, cvs)"
  using assms
  by (auto simp: Mount_init_def Let_def split: if_splits sum.splits)

lemma map_of_map_values:
  "map_of (map (\<lambda>kv. (fst kv, F (fst kv) (snd kv))) gs) k = map_option (F k) (map_of gs k)"
  by (induction gs) auto

lemma map_of_snoc_distinct:
  "distinct (map fst (gs @ [(k, v)])) \<Longrightarrow> map_of (gs @ [(k, v)]) k = Some v"
  by (induction gs) auto

lemma groups_of_mem_lookup:
  assumes "distinct (group_names rx)" and "Group n cv \<in> set rx"
  shows "dict_get (groups_of rx) n = Some cv"
proof -
  have "(n, cv) \<in> set (groups_of rx)"
    using assms(2) by (induction rx rule: groups_of.induct) auto
  then show ?thesis
    using assms(1) by (simp add: dict_get_def group_names_groups_of)
qed

text \<open>
  What \<open>Mount.matches\<close> returns once the regex has matched, whatever the regex engine
  does: \<open>groups\<close> is the \<^verbatim>\<open>groupdict()\<close> of the match, with groups of the regex as its keys,
  and \<open>rest\<close> the capture of the group \<^verbatim>\<open>path\<close>.
\<close>

lemma Mount_matches_child:
  assumes "Mount_init tbl path0 app0 rs0 name = Inr m"
    and "tbl ''path'' = Some PathConvertor"
    and "scope_type scope = ''http'' \<or> scope_type scope = ''websocket''"
    and "re (mount_path_regex m) (scope_path scope) = Some groups"
    and "set (map fst groups) \<subseteq> set (group_names (mount_path_regex m))"
    and "dict_get groups ''path'' = Some rest"
    and "root = (case scope_root_path scope of None \<Rightarrow> [] | Some r \<Rightarrow> r)"
  shows "matches re m scope =
           Inr (FULL,
             \<lparr>child_endpoint = Some (Inr (mount_app m)),
              child_path_params =
                Some (dict_update (get_path_params scope)
                        (dict_pop
                           (map (\<lambda>kv. (fst kv,
                                   convert (the (dict_get (mount_param_convertors m) (fst kv))) (snd kv)))
                              groups)
                           ''path'')),
              child_app_root_path =
                Some (case scope_app_root_path scope of None \<Rightarrow> root | Some p \<Rightarrow> p),
              child_root_path =
                Some (root @ take (length (scope_path scope) - length (''/'' @ rest)) (scope_path scope)),
              child_path = Some (''/'' @ rest)\<rparr>)"
proof -
  from Mount_init_fields [OF assms(1)] obtain rx fmt cvs app where
    m: "m = Mount (rstrip CHR ''/'' path0) app name rx fmt cvs"
    and c: "compile_path tbl (rstrip CHR ''/'' path0 @ ''/{path:path}'') = Inr (rx, fmt, cvs)"
    by blast
  from compile_path_mount [OF c] assms(2) obtain segs l where
    rx: "rx = segs @ [Lit (l @ ''/''), Group ''path'' PathConvertor, Lit []]"
    by auto
  have g: "re rx (scope_path scope) = Some groups" using assms(4) m by simp
  note r = compile_path_result [OF c]
  have cv: "dict_get cvs ''path'' = Some PathConvertor"
    unfolding r(2) by (rule groups_of_mem_lookup [OF r(3)]) (simp add: rx)
  have conv: "convert_params cvs groups =
      Inr (map (\<lambda>kv. (fst kv, convert (the (dict_get cvs (fst kv))) (snd kv))) groups)"
    by (rule convert_params_groups [OF c]) (use assms(5) m in simp)
  have mp: "dict_get (map (\<lambda>kv. (fst kv, convert (the (dict_get cvs (fst kv))) (snd kv))) groups) ''path''
      = Some (PyStr rest)"
    using assms(6) cv
    by (simp add: dict_get_def map_of_map_values [where F = "\<lambda>k v. convert (the (map_of cvs k)) v"]
        PathConvertor_def)
  show ?thesis
    unfolding m matches.simps Mount_matches_def Let_def assms(7)
    using assms(3) g conv mp by auto
qed

text \<open>
  With \<open>regex_match\<close> as the engine, the path that the regex of a mount matches is a
  consumed part, a slash and the capture of \<^verbatim>\<open>path\<close>.
\<close>

lemma Mount_match_shape:
  assumes "Mount_init tbl path0 app0 rs0 name = Inr m"
    and "tbl ''path'' = Some PathConvertor"
    and "regex_match (mount_path_regex m) s = Some groups"
  shows "\<exists>matched rest. s = matched @ ''/'' @ rest \<and> dict_get groups ''path'' = Some rest"
proof -
  from Mount_init_fields [OF assms(1)] obtain rx fmt cvs app where
    m: "m = Mount (rstrip CHR ''/'' path0) app name rx fmt cvs"
    and c: "compile_path tbl (rstrip CHR ''/'' path0 @ ''/{path:path}'') = Inr (rx, fmt, cvs)"
    by blast
  from compile_path_mount [OF c] assms(2) obtain segs l where
    rx: "rx = segs @ [Lit (l @ ''/''), Group ''path'' PathConvertor, Lit []]"
    by auto
  have g: "regex_match rx s = Some groups" using assms(3) m by simp
  have cls: "regex_class PathConvertor = (\<lambda>c. True)" by (simp add: PathConvertor_def)
  from regex_match_mount [OF g [unfolded rx] cls] obtain matched rest gs where
    s: "s = matched @ ''/'' @ rest" and gr: "groups = gs @ [(''path'', rest)]"
    by blast
  note r = compile_path_result [OF c]
  have names: "map fst groups = group_names rx" by (rule regex_match_names [OF g])
  have dg: "distinct (map fst (gs @ [(''path'', rest)]))" using names r(3) gr by simp
  have lookup: "dict_get groups ''path'' = Some rest"
    unfolding dict_get_def gr by (rule map_of_snoc_distinct [OF dg])
  show ?thesis using s lookup by blast
qed

text \<open>
  C6. For a mount built by the constructor, with the \<^verbatim>\<open>path\<close> convertor of the spec (any
  characters, decoded as they are), and an http or websocket request whose path the
  regex matches (\<open>groups\<close> is the \<^verbatim>\<open>groupdict()\<close> of the match, its keys groups of the
  regex, and \<open>rest\<close> the capture of \<^verbatim>\<open>path\<close>): \<open>matches\<close> returns \<open>FULL\<close> whatever the
  method; the child scope has as \<^verbatim>\<open>path\<close> the slash and the capture, as \<^verbatim>\<open>root_path\<close> the
  root path of the request followed by the request's path without the slash and the
  capture at its end, and as \<^verbatim>\<open>endpoint\<close> the application of the mount. When the path is
  a consumed part, a slash and the capture, what is added to the root path is the
  consumed part; this is so whenever the engine gives what \<open>regex_match\<close> gives.
\<close>

theorem Mount_matches_full:
  assumes "Mount_init tbl path0 app0 rs0 name = Inr m"
    and "tbl ''path'' = Some PathConvertor"
    and "scope_type scope = ''http'' \<or> scope_type scope = ''websocket''"
    and "re (mount_path_regex m) (scope_path scope) = Some groups"
    and "set (map fst groups) \<subseteq> set (group_names (mount_path_regex m))"
    and "dict_get groups ''path'' = Some rest"
    and "root = (case scope_root_path scope of None \<Rightarrow> [] | Some r \<Rightarrow> r)"
    and "added = take (length (scope_path scope) - length (''/'' @ rest)) (scope_path scope)"
  shows "matches re m scope =
           Inr (FULL,
             \<lparr>child_endpoint = Some (Inr (mount_app m)),
              child_path_params =
                Some (dict_update (get_path_params scope)
                        (dict_pop
                           (map (\<lambda>kv. (fst kv,
                                   convert (the (dict_get (mount_param_convertors m) (fst kv))) (snd kv)))
                              groups)
                           ''path'')),
              child_app_root_path =
                Some (case scope_app_root_path scope of None \<Rightarrow> root | Some p \<Rightarrow> p),
              child_root_path = Some (root @ added),
              child_path = Some (''/'' @ rest)\<rparr>)
       \<and> (\<forall>matched. scope_path scope = matched @ ''/'' @ rest \<longrightarrow> added = matched)
       \<and> (re (mount_path_regex m) (scope_path scope)
            = regex_match (mount_path_regex m) (scope_path scope)
          \<longrightarrow> scope_path scope = added @ ''/'' @ rest)"
proof -
  have a: "added = matched" if "scope_path scope = matched @ ''/'' @ rest" for matched
    using that by (simp add: assms(8))
  have b: "scope_path scope = added @ ''/'' @ rest"
    if "re (mount_path_regex m) (scope_path scope)
          = regex_match (mount_path_regex m) (scope_path scope)"
  proof -
    have "regex_match (mount_path_regex m) (scope_path scope) = Some groups"
      using that assms(4) by simp
    from Mount_match_shape [OF assms(1,2) this] obtain matched rest' where
      s: "scope_path scope = matched @ ''/'' @ rest'" and "dict_get groups ''path'' = Some rest'"
      by blast
    then have "rest' = rest" using assms(6) by simp
    then show ?thesis using s a by simp
  qed
  show ?thesis
    using Mount_matches_child [where re = re, OF assms(1-7)] a b unfolding assms(8) by blast
qed

lemma regex_match_api_items:
  "regex_match (mount_path_regex api_mount) ''/api/items'' = Some [(''path'', ''items'')]"
  by (simp add: api_mount_def PathConvertor_def)

text \<open>
  C6, on the example of the spec: the mount \<^verbatim>\<open>/api\<close> matches \<^verbatim>\<open>/api/items\<close>, here for a
  \<^verbatim>\<open>DELETE\<close>, with the path \<^verbatim>\<open>/items\<close> left for the routes inside and \<^verbatim>\<open>/api\<close> added to the
  root path.
\<close>

theorem Mount_matches_full_witness:
  "matches regex_match api_mount (request ''http'' ''/api/items'' ''DELETE'') =
     Inr (FULL,
       \<lparr>child_endpoint = Some (Inr (Router [RouteNode route_items_post] True None no_handlers)),
        child_path_params = Some [],
        child_app_root_path = Some [],
        child_root_path = Some ''/api'',
        child_path = Some ''/items''\<rparr>)"
proof -
  have ty: "scope_type (request ''http'' ''/api/items'' ''DELETE'') = ''http''
      \<or> scope_type (request ''http'' ''/api/items'' ''DELETE'') = ''websocket''" by simp
  have g: "regex_match (mount_path_regex api_mount) (scope_path (request ''http'' ''/api/items'' ''DELETE''))
      = Some [(''path'', ''items'')]"
    by (simp add: regex_match_api_items)
  have k: "set (map fst [(''path'', ''items'')]) \<subseteq> set (group_names (mount_path_regex api_mount))"
    by (simp add: api_mount_def)
  have d: "dict_get [(''path'', ''items'')] ''path'' = Some ''items''"
    by (simp add: dict_get_def)
  have cv: "str_path_table ''path'' = Some PathConvertor" by (simp add: str_path_table_def)
  from Mount_matches_full [where re = regex_match, OF Mount_init_api cv ty g k d refl refl]
  show ?thesis
    by (simp add: api_mount_def get_path_params_def dict_pop_def dict_get_def PathConvertor_def)
qed

subsection \<open>A mount needs the slash after its prefix\<close>

lemma count_ident_slash: "\<forall>c\<in>set n. ident_char c \<Longrightarrow> count_list n CHR ''/'' = 0"
  by (induction n) auto

lemma count_list_drop: "count_list (drop k s) x \<le> count_list s x"
proof -
  have "count_list s x = count_list (take k s) x + count_list (drop k s) x"
    by (metis append_take_drop_id count_list_append)
  then show ?thesis by simp
qed

lemma PARAM_REGEX_match_slashes:
  assumes "PARAM_REGEX_match s = Some ((n, ty), r)"
  shows "count_list s CHR ''/'' = count_list r CHR ''/''"
proof -
  from PARAM_REGEX_match_Some [OF assms] obtain t where
    s: "s = CHR ''{'' # n @ t @ CHR ''}'' # r" and n: "\<forall>c\<in>set n. ident_char c"
    and t: "ty = None \<and> t = [] \<or> (\<exists>i. ty = Some (CHR '':'' # i) \<and> t = CHR '':'' # i \<and> (\<forall>c\<in>set i. ident_char c))"
    by blast
  have "count_list t CHR ''/'' = 0" using t by (auto simp: count_ident_slash)
  then show ?thesis using s n by (simp add: count_list_append count_ident_slash)
qed

lemma finditer_slashes:
  "finditer lit s = (ms, l) \<Longrightarrow>
   count_list lit CHR ''/'' + count_list s CHR ''/'' =
     sum_list (map (\<lambda>m. count_list (fst m) CHR ''/'') ms) + count_list l CHR ''/''"
proof (induction lit s arbitrary: ms l rule: finditer.induct)
  case (1 lit)
  then show ?case by (auto simp: count_list_rev)
next
  case (2 lit c cs)
  show ?case
  proof (cases "PARAM_REGEX_match (c # cs)")
    case None
    then have "finditer (c # lit) cs = (ms, l)" using 2(3) by simp
    from 2(1) [OF None this] show ?thesis by (simp split: if_splits)
  next
    case (Some a)
    obtain n ty rest where a: "a = ((n, ty), rest)" by (cases a) auto
    obtain ms' l' where f: "finditer [] rest = (ms', l')" by (cases "finditer [] rest")
    have r: "ms = (rev lit, n, ty) # ms'" "l = l'" using 2(3) Some a f by simp_all
    have "count_list (c # cs) CHR ''/'' = count_list rest CHR ''/''"
      using PARAM_REGEX_match_slashes Some a by blast
    moreover have "count_list rest CHR ''/'' =
        sum_list (map (\<lambda>m. count_list (fst m) CHR ''/'') ms') + count_list l' CHR ''/''"
      using 2(2) [OF Some a [symmetric] refl f] by simp
    ultimately show ?thesis using r by (simp add: count_list_rev del: count_list.simps)
  qed
qed

lemma regex_match_slashes:
  "regex_match rx s = Some g \<Longrightarrow> plain rx \<Longrightarrow>
   sum_list (map (\<lambda>l. count_list l CHR ''/'') (lits_of rx)) \<le> count_list s CHR ''/''"
proof (induction rx arbitrary: s g rule: lits_of.induct)
  case 1
  then show ?case by simp
next
  case (2 l segs)
  then obtain s' where s: "s = l @ s'" and m: "regex_match segs s' = Some g"
    by (auto simp: lit_matches_plain startswith_iff split: if_splits)
  from 2(1) [OF m] 2(3) show ?case by (simp add: s count_list_append del: count_list.simps)
next
  case (3 n cv segs)
  from 3(2) obtain k g' where m: "regex_match segs (drop k s) = Some g'"
    by (auto dest!: try_down_Some split: option.splits)
  from 3(1) [OF m] 3(3) count_list_drop [of k s "CHR ''/''"] show ?case by simp
qed

lemma Mount_never_matches_prefix:
  assumes "Mount_init tbl path0 app0 rs0 name = Inr m" and "plain (mount_path_regex m)"
  shows "regex_match (mount_path_regex m) (mount_path m) = None"
proof (rule ccontr)
  assume "regex_match (mount_path_regex m) (mount_path m) \<noteq> None"
  then obtain g where g: "regex_match (mount_path_regex m) (mount_path m) = Some g" by auto
  from Mount_init_fields [OF assms(1)] obtain rx fmt cvs app where
    m: "m = Mount (rstrip CHR ''/'' path0) app name rx fmt cvs"
    and c: "compile_path tbl (rstrip CHR ''/'' path0 @ ''/{path:path}'') = Inr (rx, fmt, cvs)"
    by blast
  let ?p = "rstrip CHR ''/'' path0"
  from compile_path_mount [OF c] obtain segs l cv where
    rx: "rx = segs @ [Lit (l @ ''/''), Group ''path'' cv, Lit []]"
    and l: "l = snd (finditer [] ?p)" and ls: "lits_of segs = map fst (fst (finditer [] ?p))"
    by blast
  have "finditer [] ?p = (fst (finditer [] ?p), l)" using l by simp
  from finditer_slashes [OF this]
  have p: "count_list ?p CHR ''/'' =
      sum_list (map (\<lambda>m. count_list (fst m) CHR ''/'') (fst (finditer [] ?p))) + count_list l CHR ''/''"
    by simp
  have "sum_list (map (\<lambda>l. count_list l CHR ''/'') (lits_of rx)) =
      sum_list (map (\<lambda>m. count_list (fst m) CHR ''/'') (fst (finditer [] ?p))) + count_list l CHR ''/'' + 1"
    by (simp add: rx lits_of_append ls count_list_append comp_def)
  moreover have "sum_list (map (\<lambda>l. count_list l CHR ''/'') (lits_of rx)) \<le> count_list ?p CHR ''/''"
    using regex_match_slashes [of rx ?p g] g m assms(2) by simp
  ultimately show False using p by simp
qed

lemma finditer_literal:
  "CHR ''{'' \<notin> set s \<Longrightarrow> finditer lit s = ([], rev lit @ s)"
  by (induction s arbitrary: lit) (auto simp: PARAM_REGEX_match_def)

lemma Mount_literal_regex:
  assumes "Mount_init tbl path0 app0 rs0 name = Inr m"
    and "tbl ''path'' = Some cv" and "CHR ''{'' \<notin> set (mount_path m)"
  shows "mount_path_regex m = [Lit (mount_path m @ ''/''), Group ''path'' cv, Lit []]"
proof -
  from Mount_init_fields [OF assms(1)] obtain rx fmt cvs app where
    m: "m = Mount (rstrip CHR ''/'' path0) app name rx fmt cvs"
    and c: "compile_path tbl (rstrip CHR ''/'' path0 @ ''/{path:path}'') = Inr (rx, fmt, cvs)"
    by blast
  let ?p = "rstrip CHR ''/'' path0"
  have "finditer [] ?p = ([], ?p)" using assms(3) m by (simp add: finditer_literal)
  from finditer_append_path [OF this]
  have "finditer [] (?p @ ''/{path:path}'') = ([(?p @ ''/'', ''path'', Some '':path'')], [])" by simp
  then show ?thesis
    using c assms(2) m
    by (auto simp: compile_path_def Let_def lstrip_def split: if_splits)
qed


lemma regex_match_literal_mount:
  assumes "regex_class cv = (\<lambda>c. True)" and "regex_least cv = 0"
    and "\<forall>c \<in> set (p @ ''/''). \<not> regex_special c"
  shows "regex_match [Lit (p @ ''/''), Group ''path'' cv, Lit []] s =
     (if startswith s (p @ ''/'') then Some [(''path'', drop (length p + 1) s)] else None)"
proof (cases "startswith s (p @ ''/'')")
  case True
  have "regex_match [Group ''path'' cv, Lit []] (drop (length (p @ ''/'')) s) =
      Some [(''path'', drop (length (p @ ''/'')) s)]"
    by (rule regex_match_path_group) (simp_all add: assms)
  then show ?thesis using True by (simp add: lit_matches_plain [OF assms(3)])
next
  case False
  then show ?thesis by (simp add: lit_matches_plain [OF assms(3)])
qed

lemma Mount_matches_regex_match:
  assumes "Mount_init tbl path0 app0 rs0 name = Inr m"
    and "tbl ''path'' = Some PathConvertor"
    and "scope_type scope = ''http'' \<or> scope_type scope = ''websocket''"
    and "regex_match (mount_path_regex m) (scope_path scope) = Some groups"
  shows "\<exists>matched rest child.
           scope_path scope = matched @ ''/'' @ rest
           \<and> dict_get groups ''path'' = Some rest
           \<and> matches regex_match m scope = Inr (FULL, child)
           \<and> child_path child = Some (''/'' @ rest)
           \<and> child_root_path child =
               Some ((case scope_root_path scope of None \<Rightarrow> [] | Some r \<Rightarrow> r) @ matched)
           \<and> child_endpoint child = Some (Inr (mount_app m))"
proof -
  from Mount_match_shape [OF assms(1,2,4)] obtain matched rest where
    s: "scope_path scope = matched @ ''/'' @ rest" and d: "dict_get groups ''path'' = Some rest"
    by blast
  have k: "set (map fst groups) \<subseteq> set (group_names (mount_path_regex m))"
    using regex_match_names [OF assms(4)] by simp
  note c = Mount_matches_child [where re = regex_match, OF assms(1,2,3,4) k d refl]
  show ?thesis
    using s d c by (intro exI [of _ matched] exI [of _ rest]) simp
qed



lemma finditer_dot:
  "finditer [] ''/a.b/{path:path}'' = ([(''/a.b/'', ''path'', Some '':path'')], [])"
  by (simp add: PARAM_REGEX_match_def take_ident_def ident_start_def ident_char_def)

lemma Mount_init_dot:
  "Mount_init str_path_table ''/a.b'' (Some (OtherApp ''files'' None)) None None = Inr dot_mount"
  by (simp add: Mount_init_def rstrip_def compile_path_def finditer_dot str_path_table_def
      lstrip_def Let_def dot_mount_def del: finditer.simps)


subsection \<open>Substituting into a format\<close>

lemma contains_prefix: "contains old (old @ s)"
proof (cases "old @ s")
  case Nil
  then show ?thesis by simp
next
  case (Cons a l)
  have "startswith (old @ s) old" by simp
  then have "contains old (a # l)" unfolding Cons by simp
  then show ?thesis unfolding Cons .
qed

lemma contains_append: "contains old (x @ old @ s)"
  by (induction x) (simp_all add: contains_prefix)

lemma replace_scan_skip:
  "CHR ''{'' \<notin> set x \<Longrightarrow>
   replace_scan (CHR ''{'' # k) new (x @ s) = x @ replace_scan (CHR ''{'' # k) new s"
  by (induction x) auto

lemma replace_scan_hit:
  "replace_scan (CHR ''{'' # k) new ((CHR ''{'' # k) @ s) = new @ replace_scan (CHR ''{'' # k) new s"
  by (simp add: startswith_iff)

lemma brace_prefix_eq:
  assumes "CHR ''}'' \<notin> set m" and "CHR ''}'' \<notin> set n"
    and "m @ CHR ''}'' # r = n @ CHR ''}'' # t"
  shows "m = n"
  using assms
proof (induction m arbitrary: n)
  case Nil
  then show ?case by (cases n) auto
next
  case (Cons a m)
  then show ?case by (cases n) auto
qed

lemma replace_scan_other_placeholder:
  assumes "m \<noteq> n" and "CHR ''}'' \<notin> set m" and "CHR ''}'' \<notin> set n" and "CHR ''{'' \<notin> set m"
  shows "replace_scan (''{'' @ n @ ''}'') new (''{'' @ m @ ''}'' @ s) =
           ''{'' @ m @ ''}'' @ replace_scan (''{'' @ n @ ''}'') new s"
proof -
  have ns: "\<not> startswith (m @ CHR ''}'' # s) (n @ ''}'')"
  proof
    assume "startswith (m @ CHR ''}'' # s) (n @ ''}'')"
    then obtain t where "m @ CHR ''}'' # s = n @ CHR ''}'' # t" by (auto simp: startswith_iff)
    from brace_prefix_eq [OF assms(2,3) this] assms(1) show False by simp
  qed
  have "replace_scan (CHR ''{'' # n @ ''}'') new ((m @ ''}'') @ s) =
      (m @ ''}'') @ replace_scan (CHR ''{'' # n @ ''}'') new s"
    by (rule replace_scan_skip) (use assms(4) in simp)
  then show ?thesis using ns by simp
qed

lemma replace_scan_format_of_absent:
  assumes "n \<notin> set (group_names segs)" and "CHR ''}'' \<notin> set n"
    and "\<forall>l\<in>set (lits_of segs). CHR ''{'' \<notin> set l"
    and "\<forall>m\<in>set (group_names segs). CHR ''{'' \<notin> set m \<and> CHR ''}'' \<notin> set m"
  shows "replace_scan (''{'' @ n @ ''}'') new (format_of segs) = format_of segs"
  using assms
proof (induction segs rule: format_of.induct)
  case 1
  then show ?case by simp
next
  case (2 l segs)
  have "replace_scan (CHR ''{'' # n @ ''}'') new (l @ format_of segs) =
      l @ replace_scan (CHR ''{'' # n @ ''}'') new (format_of segs)"
    by (rule replace_scan_skip) (use 2(4) in simp)
  then show ?case using 2 by simp
next
  case (3 m cv segs)
  have "replace_scan (''{'' @ n @ ''}'') new (''{'' @ m @ ''}'' @ format_of segs) =
      ''{'' @ m @ ''}'' @ replace_scan (''{'' @ n @ ''}'') new (format_of segs)"
    by (rule replace_scan_other_placeholder) (use 3 in auto)
  then show ?case using 3 by simp
qed

lemma replace_placeholder:
  assumes "CHR ''{'' \<notin> set x"
    and "n \<notin> set (group_names segs)" and "CHR ''}'' \<notin> set n"
    and "\<forall>l\<in>set (lits_of segs). CHR ''{'' \<notin> set l"
    and "\<forall>m\<in>set (group_names segs). CHR ''{'' \<notin> set m \<and> CHR ''}'' \<notin> set m"
  shows "replace (''{'' @ n @ ''}'') new (x @ ''{'' @ n @ ''}'' @ format_of segs) =
           x @ new @ format_of segs"
proof -
  have "replace_scan (CHR ''{'' # n @ ''}'') new (x @ (CHR ''{'' # n @ ''}'') @ format_of segs) =
      x @ replace_scan (CHR ''{'' # n @ ''}'') new ((CHR ''{'' # n @ ''}'') @ format_of segs)"
    by (rule replace_scan_skip [OF assms(1)])
  also have "\<dots> = x @ new @ replace_scan (CHR ''{'' # n @ ''}'') new (format_of segs)"
    by (simp only: replace_scan_hit)
  also have "\<dots> = x @ new @ format_of segs"
    using replace_scan_format_of_absent [OF assms(2,3,4,5), of new] by simp
  finally show ?thesis by (simp add: replace_def)
qed

lemma dict_pop_filter:
  "dict_pop (filter P d) k = filter (\<lambda>kv. P kv \<and> fst kv \<noteq> k) d"
  by (induction d) (auto simp: dict_pop_def)

text \<open>
  The loop of \<open>replace_params\<close> over the parameters of the groups of a regex, in the
  order of the groups, on the format of that regex after some text \<open>x\<close> without an
  opening brace: every placeholder gets its value, and every key is popped.
\<close>

lemma replace_loop_fill:
  assumes "map fst kvs = group_names segs" and "distinct (group_names segs)"
    and "CHR ''{'' \<notin> set x"
    and "\<forall>l\<in>set (lits_of segs). CHR ''{'' \<notin> set l"
    and "\<forall>m\<in>set (group_names segs). CHR ''{'' \<notin> set m \<and> CHR ''}'' \<notin> set m"
    and "\<forall>kv\<in>set kvs. \<exists>cv. dict_get cvs (fst kv) = Some cv \<and> CHR ''{'' \<notin> set (to_string cv (snd kv))"
  shows "replace_loop (x @ format_of segs) cvs (filter P params) kvs =
           Inr (x @ fill segs (map (\<lambda>kv. to_string (the (dict_get cvs (fst kv))) (snd kv)) kvs),
                filter (\<lambda>kv. P kv \<and> fst kv \<notin> set (map fst kvs)) params)"
  using assms
proof (induction segs arbitrary: x kvs P rule: format_of.induct)
  case 1
  then show ?case by simp
next
  case (2 l segs)
  have "replace_loop ((x @ l) @ format_of segs) cvs (filter P params) kvs =
           Inr ((x @ l) @ fill segs (map (\<lambda>kv. to_string (the (dict_get cvs (fst kv))) (snd kv)) kvs),
                filter (\<lambda>kv. P kv \<and> fst kv \<notin> set (map fst kvs)) params)"
    by (rule 2(1)) (use 2(2-) in auto)
  then show ?case by simp
next
  case (3 n cv segs)
  from 3(2) obtain v kvs' where kvs: "kvs = (n, v) # kvs'"
    and rest: "map fst kvs' = group_names segs"
    by (cases kvs) auto
  from 3(7) kvs obtain c where c: "dict_get cvs n = Some c"
    and cb: "CHR ''{'' \<notin> set (to_string c v)" by auto
  have n: "n \<notin> set (group_names segs)" "CHR ''}'' \<notin> set n" "CHR ''{'' \<notin> set n"
    using 3(3,6) by auto
  have con: "contains (''{'' @ n @ ''}'') (x @ ''{'' @ n @ ''}'' @ format_of segs)"
    using contains_append [of "''{'' @ n @ ''}''" x "format_of segs"] by simp
  have rep: "replace (''{'' @ n @ ''}'') (to_string c v) (x @ ''{'' @ n @ ''}'' @ format_of segs) =
      x @ to_string c v @ format_of segs"
    by (rule replace_placeholder) (use 3(4,5,6) n in auto)
  have ih: "replace_loop ((x @ to_string c v) @ format_of segs) cvs
              (filter (\<lambda>kv. P kv \<and> fst kv \<noteq> n) params) kvs' =
           Inr ((x @ to_string c v) @ fill segs (map (\<lambda>kv. to_string (the (dict_get cvs (fst kv))) (snd kv)) kvs'),
                filter (\<lambda>kv. (P kv \<and> fst kv \<noteq> n) \<and> fst kv \<notin> set (map fst kvs')) params)"
    by (rule 3(1)) (use 3(3-) rest cb kvs in auto)
  have f: "filter (\<lambda>kv. (P kv \<and> fst kv \<noteq> n) \<and> fst kv \<notin> set (map fst kvs')) params =
      filter (\<lambda>kv. P kv \<and> fst kv \<notin> set (map fst kvs)) params"
    by (rule filter_cong) (auto simp: kvs)
  show ?case
    using con rep ih c f
    by (simp add: kvs dict_pop_filter del: replace_scan.simps contains.simps)
qed

subsection \<open>Matching, then reverse lookup\<close>

lemma finditer_names:
  "finditer lit s = (ms, l) \<Longrightarrow> \<forall>m\<in>set ms. \<forall>c\<in>set (fst (snd m)). ident_char c"
proof (induction lit s arbitrary: ms l rule: finditer.induct)
  case (1 lit)
  then show ?case by simp
next
  case (2 lit c cs)
  show ?case
  proof (cases "PARAM_REGEX_match (c # cs)")
    case None
    then have "finditer (c # lit) cs = (ms, l)" using 2(3) by simp
    from 2(1) [OF None this] show ?thesis .
  next
    case (Some a)
    obtain n ty rest where a: "a = ((n, ty), rest)" by (cases a) auto
    obtain ms' l' where f: "finditer [] rest = (ms', l')" by (cases "finditer [] rest")
    have r: "ms = (rev lit, n, ty) # ms'" using 2(3) Some a f by simp
    have "\<forall>c\<in>set n. ident_char c" using PARAM_REGEX_match_Some Some a by blast
    moreover have "\<forall>m\<in>set ms'. \<forall>c\<in>set (fst (snd m)). ident_char c"
      using 2(2) [OF Some a [symmetric] refl f] .
    ultimately show ?thesis using r by simp
  qed
qed

lemma compile_path_names:
  assumes "compile_path tbl path = Inr (rx, fmt, cvs)"
  shows "\<forall>n\<in>set (group_names rx). CHR ''{'' \<notin> set n \<and> CHR ''}'' \<notin> set n"
proof -
  obtain ms last_lit where f: "finditer [] path = (ms, last_lit)" by (cases "finditer [] path")
  from assms f obtain rx0 fmt0 cvs0 where
    loop: "compile_loop tbl ms [] [] [] = Inr (rx0, fmt0, cvs0)" and r: "rx = rx0 @ [Lit last_lit]"
    by (auto simp: compile_path_def split: sum.splits if_splits)
  from compile_loop_result [OF loop] have "group_names rx0 = map (\<lambda>m. fst (snd m)) ms" by auto
  then have "\<forall>n\<in>set (group_names rx). \<forall>c\<in>set n. ident_char c"
    using finditer_names [OF f] r by (auto simp: group_names_append)
  then show ?thesis by (metis ident_char_simps(2,3))
qed

lemma plain_lits: "plain rx \<Longrightarrow> \<forall>l\<in>set (lits_of rx). CHR ''{'' \<notin> set l"
  by (induction rx rule: lits_of.induct) (auto simp: regex_special_def)

lemma regex_match_fill:
  "regex_match segs s = Some gs \<Longrightarrow> plain segs \<Longrightarrow>
   s = fill segs (map snd gs) \<or> s = fill segs (map snd gs) @ [CHR 0x0A]"
proof (induction segs arbitrary: s gs rule: group_names.induct)
  case 1
  then show ?case by (auto split: if_splits)
next
  case (2 l segs)
  then obtain s' where s: "s = l @ s'" and m: "regex_match segs s' = Some gs"
    by (auto simp: lit_matches_plain startswith_iff split: if_splits)
  from 2(1) [OF m] 2(3) show ?case by (auto simp: s)
next
  case (3 n cv segs)
  from 3(2) obtain k g where m: "regex_match segs (drop k s) = Some g"
    and g: "gs = (n, take k s) # g"
    by (auto dest!: try_down_Some split: option.splits)
  from 3(1) [OF m] 3(3) have "drop k s = fill segs (map snd g)
      \<or> drop k s = fill segs (map snd g) @ [CHR 0x0A]" by simp
  then have "s = take k s @ fill segs (map snd g)
      \<or> s = take k s @ fill segs (map snd g) @ [CHR 0x0A]"
    by (metis append_take_drop_id)
  then show ?case using g by simp
qed

lemma regex_match_captures:
  "regex_match segs s = Some gs \<Longrightarrow> \<forall>kv\<in>set gs. set (snd kv) \<subseteq> set s"
proof (induction segs arbitrary: s gs rule: group_names.induct)
  case 1
  then show ?case by (auto split: if_splits)
next
  case (2 l segs)
  then have m: "regex_match segs (drop (length l) s) = Some gs"
    by (auto split: if_splits)
  from 2(1) [OF m] show ?case by (auto dest: in_set_dropD)
next
  case (3 n cv segs)
  from 3(2) obtain k g where m: "regex_match segs (drop k s) = Some g"
    and g: "gs = (n, take k s) # g"
    by (auto dest!: try_down_Some split: option.splits)
  from 3(1) [OF m] show ?case
    using g by (auto dest: in_set_takeD in_set_dropD)
qed

text \<open>
  The heart of C4: after a match of a compiled template against \<open>s\<close>, substituting the
  converted captures into the format gives \<open>s\<close> back, and no parameter is left.
\<close>

lemma reverse_of_match:
  assumes c: "compile_path tbl path = Inr (rx, fmt, cvs)"
    and pl: "plain rx"
    and rt: "\<forall>cv\<in>snd ` set cvs. \<forall>t. to_string cv (convert cv t) = t"
    and g: "regex_match rx s = Some gs"
    and nb: "CHR ''{'' \<notin> set s"
    and nl: "\<not> endswith s [CHR 0x0A]"
    and mp: "matched = map (\<lambda>kv. (fst kv, convert (the (dict_get cvs (fst kv))) (snd kv))) gs"
  shows "convert_params cvs gs = Inr matched"
    and "dict_update [] matched = matched"
    and "set (dict_keys matched) = set (dict_keys cvs)"
    and "replace_params fmt cvs matched = Inr (s, [])"
proof -
  note r = compile_path_result [OF c]
  have names: "map fst gs = group_names rx" by (rule regex_match_names [OF g])
  have keys: "map fst matched = group_names rx" using names by (simp add: mp comp_def)
  show "convert_params cvs gs = Inr matched"
    unfolding mp by (rule convert_params_compiled [OF c g])
  show "dict_update [] matched = matched"
    using dict_update_distinct [of "[]" matched] keys r(3) by simp
  show "set (dict_keys matched) = set (dict_keys cvs)"
    using keys r(2) by (simp add: dict_keys_def group_names_groups_of)
  have look: "\<exists>cv. dict_get cvs (fst kv) = Some cv \<and> cv \<in> snd ` set cvs" if "kv \<in> set gs" for kv
  proof -
    have "fst kv \<in> set (group_names rx)" using that names by (metis image_eqI set_map)
    then have "fst kv \<in> fst ` set cvs" using r(2) by (simp add: group_names_groups_of)
    then obtain cv where cv: "map_of cvs (fst kv) = Some cv"
      by (metis domD dom_map_of_conv_image_fst)
    then have "(fst kv, cv) \<in> set cvs" by (auto dest: map_of_SomeD)
    then have "cv \<in> snd ` set cvs" by force
    then show ?thesis using cv by (auto simp: dict_get_def)
  qed
  have val: "to_string (the (dict_get cvs (fst kv))) (convert (the (dict_get cvs (fst kv))) (snd kv)) = snd kv"
    if "kv \<in> set gs" for kv
  proof -
    from look [OF that] obtain cv where cv: "dict_get cvs (fst kv) = Some cv" "cv \<in> snd ` set cvs"
      by blast
    from rt cv(2) have "to_string cv (convert cv (snd kv)) = snd kv" by blast
    then show ?thesis by (simp add: cv(1))
  qed
  have vals: "map (\<lambda>kv. to_string (the (dict_get cvs (fst kv))) (snd kv)) matched = map snd gs"
    unfolding mp using val by (simp add: comp_def)
  have brace: "\<forall>kv\<in>set matched. \<exists>cv. dict_get cvs (fst kv) = Some cv
      \<and> CHR ''{'' \<notin> set (to_string cv (snd kv))"
  proof
    fix kv assume "kv \<in> set matched"
    then obtain kv' where kv': "kv' \<in> set gs"
      and kv: "kv = (fst kv', convert (the (dict_get cvs (fst kv'))) (snd kv'))"
      unfolding mp by auto
    from look [OF kv'] obtain cv where cv: "dict_get cvs (fst kv') = Some cv" "cv \<in> snd ` set cvs" by blast
    from rt cv(2) have "to_string cv (convert cv (snd kv')) = snd kv'" by blast
    then have "to_string cv (snd kv) = snd kv'" using kv cv(1) by simp
    moreover have "set (snd kv') \<subseteq> set s" using regex_match_captures [OF g] kv' by blast
    ultimately show "\<exists>cv. dict_get cvs (fst kv) = Some cv \<and> CHR ''{'' \<notin> set (to_string cv (snd kv))"
      using cv(1) kv nb by auto
  qed
  have "replace_loop ([] @ format_of rx) cvs (filter (\<lambda>kv. True) matched) matched =
      Inr ([] @ fill rx (map (\<lambda>kv. to_string (the (dict_get cvs (fst kv))) (snd kv)) matched),
           filter (\<lambda>kv. True \<and> fst kv \<notin> set (map fst matched)) matched)"
    by (rule replace_loop_fill [OF keys r(3) _ plain_lits [OF pl] compile_path_names [OF c] brace])
      simp
  moreover have "filter (\<lambda>kv. True \<and> fst kv \<notin> set (map fst matched)) matched = []"
    by (auto simp: filter_empty_conv)
  moreover have "fill rx (map snd gs) = s"
    using regex_match_fill [OF g pl] nl by (auto simp: endswith_iff)
  ultimately show "replace_params fmt cvs matched = Inr (s, [])"
    using vals r(1) by (simp add: replace_params_def)
qed

lemma WebSocketRoute_init_compile:
  assumes "WebSocketRoute_init tbl path endpoint name = Inr r"
  shows "compile_path tbl path = Inr (ws_path_regex r, ws_path_format r, ws_param_convertors r)"
    and "ws_name r = (case name of None \<Rightarrow> get_name endpoint | Some n \<Rightarrow> n)"
  using assms
  by (auto simp: WebSocketRoute_init_def Let_def split: if_splits sum.splits prod.splits)


lemma finditer_user:
  "finditer [] ''/users/{username}'' = ([(''/users/'', ''username'', None)], [])"
  by (simp add: PARAM_REGEX_match_def take_ident_def ident_start_def ident_char_def)

lemma Route_init_user:
  "Route_init str_path_table ''/users/{username}'' homepage None None True = Inr route_user"
  by (simp add: Route_init_def compile_path_def finditer_user str_path_table_def Let_def
      homepage_def get_name_def upper_GET insert_commute route_user_def del: finditer.simps)

lemma Route_matches_user:
  "Route_matches regex_match route_user (request ''http'' ''/users/bob'' ''GET'') =
     Inr (FULL, empty_child\<lparr>child_endpoint := Some (Inl homepage),
                  child_path_params := Some [(''username'', PyStr ''bob'')]\<rparr>)"
  by (simp add: Route_matches_def route_user_def StringConvertor_def dict_get_def
      get_path_params_def method_rejected_def)


lemma finditer_tenant:
  "finditer [] ''{tenant}.example.org'' = ([([], ''tenant'', None)], ''.example.org'')"
  by (simp add: PARAM_REGEX_match_def take_ident_def ident_start_def ident_char_def)


subsection \<open>Reverse lookup of a route\<close>

lemma finditer_pair:
  "finditer [] ''/{a}/{b}'' = ([(''/'', ''a'', None), (''/'', ''b'', None)], [])"
  by (simp add: PARAM_REGEX_match_def take_ident_def ident_start_def ident_char_def)

text \<open>
  C5 on the input where the code goes wrong: for the route \<^verbatim>\<open>/{a}/{b}\<close> named \<^verbatim>\<open>pair\<close>,
  \<^verbatim>\<open>url_path_for("pair", a="{b}", b="x")\<close> succeeds, and returns \<^verbatim>\<open>/x/x\<close>: the value of
  \<^verbatim>\<open>a\<close>, once in the path, is replaced as if it were the placeholder of \<^verbatim>\<open>b\<close>. The format
  with each parameter in its own place is \<^verbatim>\<open>/{b}/x\<close>.
\<close>

theorem Route_url_path_for_replaces_value:
  "Route_init str_path_table ''/{a}/{b}'' pair None None True = Inr route_pair
 \<and> Route_url_path_for route_pair ''pair'' [(''a'', PyStr ''{b}''), (''b'', PyStr ''x'')] =
     Inr \<lparr>url_path = ''/x/x'', url_protocol = ''http'', url_host = []\<rparr>
 \<and> fill (route_path_regex route_pair) [''{b}'', ''x''] = ''/{b}/x''"
proof -
  have "Route_init str_path_table ''/{a}/{b}'' pair None None True = Inr route_pair"
    by (simp add: Route_init_def compile_path_def finditer_pair str_path_table_def Let_def
        pair_def get_name_def upper_GET insert_commute route_pair_def del: finditer.simps)
  moreover have "Route_url_path_for route_pair ''pair'' [(''a'', PyStr ''{b}''), (''b'', PyStr ''x'')] =
     Inr \<lparr>url_path = ''/x/x'', url_protocol = ''http'', url_host = []\<rparr>"
    by (simp add: Route_url_path_for_def route_pair_def dict_keys_def replace_params_def
        replace_def dict_get_def dict_pop_def StringConvertor_def py_str_def)
  moreover have "fill (route_path_regex route_pair) [''{b}'', ''x''] = ''/{b}/x''"
    by (simp add: route_pair_def)
  ultimately show ?thesis by blast
qed

text \<open>C5, the same input: the path returned is not the format with each value in its place.\<close>

theorem Route_url_path_for_replaces_value_witness:
  "Route_url_path_for route_pair ''pair'' [(''a'', PyStr ''{b}''), (''b'', PyStr ''x'')] \<noteq>
     Inr \<lparr>url_path = fill (route_path_regex route_pair) [''{b}'', ''x''],
          url_protocol = ''http'', url_host = []\<rparr>"
  using Route_url_path_for_replaces_value by simp

end
